theory Spec2Isabelle
  imports Complex_Main "HOL-Library.Log_Nat"
begin

section \<open>JavaScript numbers\<close>

text \<open>
  The limiter computes with JavaScript numbers. Their special values decide what the
  constructor does with a count that is not a positive number, so they are part of the
  model: \<open>NaN\<close>, the two infinities and the negative zero. A finite value other than
  \<open>-0\<close> is represented by the rational it denotes; \<open>Fin 0\<close> is \<open>+0\<close>.
\<close>

datatype jsnum = Fin rat | NegZero | PInf | NInf | NaN

fun is_zero :: "jsnum \<Rightarrow> bool" where
  "is_zero (Fin q) = (q = 0)"
| "is_zero NegZero = True"
| "is_zero _ = False"

fun is_inf :: "jsnum \<Rightarrow> bool" where
  "is_inf PInf = True"
| "is_inf NInf = True"
| "is_inf _ = False"

fun sign_bit :: "jsnum \<Rightarrow> bool" where
  "sign_bit (Fin q) = (q < 0)"
| "sign_bit NegZero = True"
| "sign_bit NInf = True"
| "sign_bit _ = False"

fun magnitude :: "jsnum \<Rightarrow> rat" where
  "magnitude (Fin q) = q"
| "magnitude _ = 0"

text \<open>
  A JavaScript number is an IEEE 754 binary64 value: 53 significant bits, exponents from
  -1022 to 1023, subnormal numbers below \<open>2^-1022\<close> in steps of \<open>2^-1074\<close>. An operation
  rounds its exact result to the nearest such value, a tie going to the even significand.

  \<open>ilog2 x\<close> is the exponent of the binade of a positive \<open>x\<close>, the integer \<open>e\<close> with
  \<open>2^e \<le> x < 2^(e+1)\<close>: the difference of the bit lengths of numerator and denominator
  (\<open>bitlen\<close>, the number of binary digits of a positive integer), or one less.
\<close>

definition ilog2 :: "rat \<Rightarrow> int" where
  "ilog2 x =
     (let (p, q) = quotient_of x; e = bitlen p - bitlen q
      in if 2 powi e \<le> x then e else e - 1)"

text \<open>The nearest integer, a tie going to the even one.\<close>

definition round_even :: "rat \<Rightarrow> int" where
  "round_even y =
     (let f = \<lfloor>y\<rfloor>; r = y - of_int f
      in if r < 1 / 2 then f else if 1 / 2 < r then f + 1 else if even f then f else f + 1)"

text \<open>
  The double that an exact result \<open>x\<close> is rounded to. With \<open>e\<close> the exponent of \<open>x\<close>, not
  below -1022, the doubles around \<open>x\<close> are the multiples of \<open>u = 2^(e-52)\<close>. A result
  that rounds to \<open>2^1024\<close> or lies above it overflows to an infinity; one that rounds to
  no multiple of \<open>2^-1074\<close> other than 0 underflows to a zero with the sign of \<open>x\<close>.
\<close>

definition to_double :: "rat \<Rightarrow> jsnum" where
  "to_double x =
     (if x = 0 then Fin 0
      else
        (let a = \<bar>x\<bar>; e = max (ilog2 a) (- 1022)
         in if 1024 \<le> e then (if x < 0 then NInf else PInf)
            else
              (let u = 2 powi (e - 52); k = round_even (a / u)
               in if e = 1023 \<and> k = 2 ^ 53 then (if x < 0 then NInf else PInf)
                  else if k = 0 then (if x < 0 then NegZero else Fin 0)
                  else Fin (if x < 0 then - (of_int k * u) else of_int k * u))))"

text \<open>
  The operator \<open>/\<close>: IEEE 754 division, with its cases for NaN, infinities and zeros;
  the quotient of two finite numbers other than zero is rounded.
\<close>

definition jsdiv :: "jsnum \<Rightarrow> jsnum \<Rightarrow> jsnum" where
  "jsdiv a b =
     (if a = NaN \<or> b = NaN then NaN
      else if is_inf a \<and> is_inf b then NaN
      else if is_zero a \<and> is_zero b then NaN
      else if is_inf a \<or> is_zero b then (if sign_bit a \<noteq> sign_bit b then NInf else PInf)
      else if is_zero a \<or> is_inf b then (if sign_bit a \<noteq> sign_bit b then NegZero else Fin 0)
      else to_double (magnitude a / magnitude b))"

text \<open>The operator \<open>>=\<close>: false as soon as one side is NaN; the two zeros are equal.\<close>

fun jsge :: "jsnum \<Rightarrow> jsnum \<Rightarrow> bool" where
  "jsge NaN _ = False"
| "jsge _ NaN = False"
| "jsge PInf _ = True"
| "jsge _ NInf = True"
| "jsge NInf _ = False"
| "jsge _ PInf = False"
| "jsge a b = (magnitude a \<ge> magnitude b)"

section \<open>Parsing the rate specification\<close>

text \<open>
  Strings are lists of 8-bit characters, read as the code points U+0000 to U+00FF.

  \<open>per_interval.split(/ +(.*)/)\<close> followed by the destructuring
  \<open>[per_interval, interval] = ...\<close> uses the first two elements of the split only. The
  pattern needs at least one space, so its first match begins at the first space of the
  string: element 0 is the text before that space, and element 1 is the capture group,
  the rest of the line after the run of spaces (\<open>.\<close> does not match a line terminator).
  Without a space the array has one element and \<open>interval\<close> becomes \<open>undefined\<close>.
\<close>

definition is_line_terminator :: "char \<Rightarrow> bool" where
  "is_line_terminator c = (c = CHR 0x0A \<or> c = CHR 0x0D)"

definition split_spec :: "string \<Rightarrow> string \<times> string option" where
  "split_spec s =
     (let before = takeWhile (\<lambda>c. c \<noteq> CHR '' '') s;
          rest = dropWhile (\<lambda>c. c \<noteq> CHR '' '') s
      in if rest = [] then (before, None)
         else (before, Some (takeWhile (\<lambda>c. \<not> is_line_terminator c)
                              (dropWhile (\<lambda>c. c = CHR '' '') rest))))"

text \<open>
  \<open>parseInt(s, 10)\<close>: leading white space is skipped, one sign is read, then the longest
  run of decimal digits; no digit gives NaN. The result is the double nearest to the
  integer that the digits denote (Infinity when that integer is too large), with the
  sign that was read: a negative zero keeps its sign.
\<close>

definition is_white_space :: "char \<Rightarrow> bool" where
  "is_white_space c =
     (c = CHR 0x09 \<or> c = CHR 0x0A \<or> c = CHR 0x0B \<or> c = CHR 0x0C \<or> c = CHR 0x0D
      \<or> c = CHR 0x20 \<or> c = CHR 0xA0)"

definition is_digit :: "char \<Rightarrow> bool" where
  "is_digit c = ((48::nat) \<le> of_char c \<and> of_char c \<le> (57::nat))"

definition digit_value :: "char \<Rightarrow> int" where
  "digit_value c = of_char c - 48"

definition digits_value :: "string \<Rightarrow> int" where
  "digits_value ds = foldl (\<lambda>acc c. 10 * acc + digit_value c) 0 ds"

fun jsneg :: "jsnum \<Rightarrow> jsnum" where
  "jsneg (Fin q) = (if q = 0 then NegZero else Fin (- q))"
| "jsneg NegZero = Fin 0"
| "jsneg PInf = NInf"
| "jsneg NInf = PInf"
| "jsneg NaN = NaN"

definition parseInt :: "string \<Rightarrow> jsnum" where
  "parseInt s =
     (let t = dropWhile is_white_space s;
          negative = (t \<noteq> [] \<and> hd t = CHR ''-'');
          u = (if t \<noteq> [] \<and> (hd t = CHR ''+'' \<or> hd t = CHR ''-'') then tl t else t);
          z = takeWhile is_digit u
      in if z = [] then NaN
         else if negative then jsneg (to_double (of_int (digits_value z)))
         else to_double (of_int (digits_value z)))"

text \<open>The two overloads of the constructor: a specification string, or a count and a unit.\<close>

datatype ctor_args = Spec string | Rate jsnum string

definition parse_args :: "ctor_args \<Rightarrow> jsnum \<times> string option" where
  "parse_args args =
     (case args of
        Spec s \<Rightarrow> (let (p, i) = split_spec s in (parseInt p, i))
      | Rate n i \<Rightarrow> (n, Some i))"

datatype error = InvalidDuration


section \<open>Tasks, nodes and the store\<close>

text \<open>
  A task is an opaque callable \<open>() => unknown\<close>. The scheduler only calls it and
  ignores what it returns, so a task is represented by a label that identifies it and
  by whether the call throws. What a task does elsewhere is not represented; a push
  that it causes reaches the limiter as an event of its own.
\<close>

datatype task = Task (label: nat) (throws: bool)

text \<open>
  Nodes are objects that the three cursors and the \<open>next\<close> fields alias, so they live in
  a store: an address is an index into the list of all nodes allocated so far, and an
  object literal \<open>{ fn }\<close> or \<open>{ fn, next: ... }\<close> allocates at the end of the list. A
  reference held by the limiter is always the address of an allocated node.
\<close>

type_synonym addr = nat

record node =
  fn :: task
  "next" :: "addr option"

text \<open>What the limiter does to the outside: it calls a task, it asks for a timer with
  \<open>setTimeout(resolve, delay)\<close>, or it registers a recurring timer with
  \<open>setInterval(callback, period)\<close>.\<close>

datatype obs = Call task | SetTimeout jsnum | SetInterval rat

section \<open>The fixed-delay limiter\<close>

text \<open>
  The class of the fixed-delay variant has the fields \<open>delay_ms\<close>, \<open>head\<close>,
  \<open>priority_tail\<close>, \<open>tail\<close> and \<open>is_running\<close>; an unset cursor (\<open>undefined\<close>, also
  after \<open>delete\<close>) is \<open>None\<close>. The record carries with them the environment the methods
  act on: the store of nodes, the trace of calls and timer requests made so far, and
  the number of invocations of \<open>run\<close> that are suspended at their \<open>await\<close>, each waiting
  for the timer it has set.
\<close>

record rate_limit_fixed =
  delay_ms :: jsnum
  head :: "addr option"
  priority_tail :: "addr option"
  tail :: "addr option"
  is_running :: bool
  heap :: "node list"
  trace :: "obs list"
  sleeping :: nat

definition fresh :: "jsnum \<Rightarrow> rate_limit_fixed" where
  "fresh d = \<lparr>delay_ms = d, head = None, priority_tail = None, tail = None,
     is_running = False, heap = [], trace = [], sleeping = 0\<rparr>"

definition constructor_fixed :: "ctor_args \<Rightarrow> error + rate_limit_fixed" where
  "constructor_fixed args =
     (let (per_interval, interval) = parse_args args
      in if interval = Some ''per second'' then Inr (fresh (jsdiv (Fin 1000) per_interval))
         else if interval = Some ''per minute'' then Inr (fresh (jsdiv (Fin 60000) per_interval))
         else if interval = Some ''per hour'' then Inr (fresh (jsdiv (Fin 3600000) per_interval))
         else if interval = Some ''per day'' then Inr (fresh (jsdiv (Fin 86400000) per_interval))
         else Inl InvalidDuration)"

text \<open>
  The five branches of \<open>push\<close> that link the new node, the same in both variants. In
  \<open>this.priority_tail = this.priority_tail.next = { fn, next: this.priority_tail.next }\<close>
  the object literal reads the old successor before the assignment to \<open>next\<close> replaces it.
  The last branch reads \<open>this.tail!\<close>: whenever \<open>head\<close> is set, \<open>tail\<close> is set too
  (\<open>well_formed\<close> below, which every limiter keeps).
\<close>

definition enqueue :: "task \<Rightarrow> bool \<Rightarrow> 'a rate_limit_fixed_scheme \<Rightarrow> 'a rate_limit_fixed_scheme" where
  "enqueue f priority s =
     (let a = length (heap s)
      in if priority \<and> head s = None then
           s\<lparr>heap := heap s @ [\<lparr>fn = f, next = None\<rparr>],
             head := Some a, tail := Some a, priority_tail := Some a\<rparr>
         else if priority \<and> priority_tail s \<noteq> None then
           (let p = the (priority_tail s)
            in s\<lparr>heap := (heap s @ [\<lparr>fn = f, next = next (heap s ! p)\<rparr>])
                             [p := (heap s ! p)\<lparr>next := Some a\<rparr>],
                 priority_tail := Some a\<rparr>)
         else if priority then
           s\<lparr>heap := heap s @ [\<lparr>fn = f, next = head s\<rparr>],
             head := Some a, priority_tail := Some a\<rparr>
         else if head s = None then
           s\<lparr>heap := heap s @ [\<lparr>fn = f, next = None\<rparr>], head := Some a, tail := Some a\<rparr>
         else
           (let t = the (tail s)
            in s\<lparr>heap := (heap s @ [\<lparr>fn = f, next = None\<rparr>])
                             [t := (heap s ! t)\<lparr>next := Some a\<rparr>],
                 tail := Some a\<rparr>))"

text \<open>The end of \<open>run\<close>, after its loop: the three cursors are deleted, the flag is cleared.\<close>

definition release :: "'a rate_limit_fixed_scheme \<Rightarrow> 'a rate_limit_fixed_scheme" where
  "release s = s\<lparr>head := None, tail := None, priority_tail := None, is_running := False\<rparr>"

text \<open>
  \<open>run\<close> is an \<open>async\<close> function: a call executes its body up to the first \<open>await\<close> and
  returns; the rest executes when the awaited timer has fired. \<open>loop_fixed\<close> is the body
  from the loop test to the next suspension or to the end. An exception from the task
  is not caught: it rejects the promise of \<open>run\<close> and ends this invocation where it
  stands, with the cursors and \<open>is_running\<close> as they are.
\<close>

definition loop_fixed :: "rate_limit_fixed \<Rightarrow> rate_limit_fixed" where
  "loop_fixed s =
     (case head s of
        None \<Rightarrow> release s
      | Some a \<Rightarrow>
          (let f = fn (heap s ! a); s1 = s\<lparr>trace := trace s @ [Call f]\<rparr>
           in if throws f then s1
              else s1\<lparr>trace := trace s1 @ [SetTimeout (delay_ms s1)],
                      sleeping := sleeping s1 + 1\<rparr>))"

definition run_fixed :: "rate_limit_fixed \<Rightarrow> rate_limit_fixed" where
  "run_fixed s = loop_fixed (s\<lparr>is_running := True\<rparr>)"

definition push_fixed :: "task \<Rightarrow> bool \<Rightarrow> rate_limit_fixed \<Rightarrow> rate_limit_fixed" where
  "push_fixed f priority s =
     (let s1 = enqueue f priority s
      in if \<not> is_running s1 then run_fixed s1 else s1)"

text \<open>
  The timer of a suspended invocation fires: it goes on with
  \<open>this.head = this.head.next\<close> and the loop test. Reading \<open>next\<close> of an unset \<open>head\<close>
  would throw and end the invocation. Without a suspended invocation no timer is set.
\<close>

definition resume_fixed :: "rate_limit_fixed \<Rightarrow> rate_limit_fixed" where
  "resume_fixed s =
     (if sleeping s = 0 then s
      else (let s1 = s\<lparr>sleeping := sleeping s - 1\<rparr>
            in case head s1 of
                 None \<Rightarrow> s1
               | Some a \<Rightarrow> loop_fixed (s1\<lparr>head := next (heap s1 ! a)\<rparr>)))"

text \<open>
  What happens to a limiter, one event-loop turn at a time: a caller pushes, the timer
  of the suspended drain loop fires, or (burst variant only) the quota timer fires.
\<close>

datatype event = Push task bool | Timeout | Interval

fun step_fixed :: "event \<Rightarrow> rate_limit_fixed \<Rightarrow> rate_limit_fixed" where
  "step_fixed (Push f priority) s = push_fixed f priority s"
| "step_fixed Timeout s = resume_fixed s"
| "step_fixed Interval s = s"

fun exec_fixed :: "event list \<Rightarrow> rate_limit_fixed \<Rightarrow> rate_limit_fixed" where
  "exec_fixed [] s = s"
| "exec_fixed (e # es) s = exec_fixed es (step_fixed e s)"


section \<open>The burst-allowance limiter\<close>

text \<open>only rate limit requests after we hit half of our limit\<close>

definition limit_after_percent :: rat where
  "limit_after_percent = 1 / 2"

text \<open>
  The burst variant adds the counter \<open>requests_made\<close> and the quota
  \<open>requests_allowed\<close>. The counter starts at 0 and only ever changes by \<open>++\<close> and by
  the reset to 0, so it is a natural number (\<open>++\<close> is exact below \<open>2^53\<close>).
\<close>

record rate_limit = rate_limit_fixed +
  requests_made :: nat
  requests_allowed :: jsnum

definition interval_ms_of :: "string option \<Rightarrow> rat option" where
  "interval_ms_of interval =
     (if interval = Some ''per second'' then Some 1000
      else if interval = Some ''per minute'' then Some 60000
      else if interval = Some ''per hour'' then Some 3600000
      else if interval = Some ''per day'' then Some 86400000
      else None)"

definition constructor :: "ctor_args \<Rightarrow> error + rate_limit" where
  "constructor args =
     (let (per_interval, interval) = parse_args args
      in case interval_ms_of interval of
           None \<Rightarrow> Inl InvalidDuration
         | Some interval_ms \<Rightarrow>
             Inr \<lparr>delay_ms = jsdiv (jsdiv (Fin interval_ms) per_interval)
                                 (Fin (1 - limit_after_percent)),
                  head = None, priority_tail = None, tail = None, is_running = False,
                  heap = [], trace = [SetInterval interval_ms], sleeping = 0,
                  requests_made = 0, requests_allowed = per_interval\<rparr>)"

text \<open>The callback of the recurring timer: \<open>() => (this.requests_made = 0)\<close>.\<close>

definition reset_quota :: "rate_limit \<Rightarrow> rate_limit" where
  "reset_quota s = s\<lparr>requests_made := 0\<rparr>"

text \<open>
  The loop of \<open>run\<close> in the burst variant suspends only once the quota ratio has reached
  \<open>limit_after_percent\<close>; below it, \<open>this.head = this.head.next\<close> follows the call at
  once and the loop goes round again inside the same synchronous stretch. Such a
  stretch need not end (a quota that is NaN never throttles), so no result is \<open>None\<close>.
\<close>

partial_function (option) loop :: "rate_limit \<Rightarrow> rate_limit option" where
  "loop s =
     (case head s of
        None \<Rightarrow> Some (release s)
      | Some a \<Rightarrow>
          (let s1 = s\<lparr>requests_made := requests_made s + 1\<rparr>;
               f = fn (heap s1 ! a);
               s2 = s1\<lparr>trace := trace s1 @ [Call f]\<rparr>
           in if throws f then Some s2
              else if jsge (jsdiv (Fin (of_nat (requests_made s2))) (requests_allowed s2))
                           (Fin limit_after_percent)
              then Some (s2\<lparr>trace := trace s2 @ [SetTimeout (delay_ms s2)],
                            sleeping := sleeping s2 + 1\<rparr>)
              else loop (s2\<lparr>head := next (heap s2 ! a)\<rparr>)))"

declare loop.simps [code]

definition run :: "rate_limit \<Rightarrow> rate_limit option" where
  "run s = loop (s\<lparr>is_running := True\<rparr>)"

definition push :: "task \<Rightarrow> bool \<Rightarrow> rate_limit \<Rightarrow> rate_limit option" where
  "push f priority s =
     (let s1 = enqueue f priority s
      in if \<not> is_running s1 then run s1 else Some s1)"

definition resume :: "rate_limit \<Rightarrow> rate_limit option" where
  "resume s =
     (if sleeping s = 0 then Some s
      else (let s1 = s\<lparr>sleeping := sleeping s - 1\<rparr>
            in case head s1 of
                 None \<Rightarrow> Some s1
               | Some a \<Rightarrow> loop (s1\<lparr>head := next (heap s1 ! a)\<rparr>)))"

fun step :: "event \<Rightarrow> rate_limit \<Rightarrow> rate_limit option" where
  "step (Push f priority) s = push f priority s"
| "step Timeout s = resume s"
| "step Interval s = Some (reset_quota s)"

fun exec :: "event list \<Rightarrow> rate_limit \<Rightarrow> rate_limit option" where
  "exec [] s = Some s"
| "exec (e # es) s = (case step e s of None \<Rightarrow> None | Some s' \<Rightarrow> exec es s')"


section \<open>Observing a limiter\<close>

text \<open>A limiter is constructed, then a list of events happens to it.\<close>

definition session_fixed :: "ctor_args \<Rightarrow> event list \<Rightarrow> error + rate_limit_fixed" where
  "session_fixed args es =
     (case constructor_fixed args of Inl e \<Rightarrow> Inl e | Inr s \<Rightarrow> Inr (exec_fixed es s))"

definition session :: "ctor_args \<Rightarrow> event list \<Rightarrow> error + rate_limit option" where
  "session args es =
     (case constructor args of Inl e \<Rightarrow> Inl e | Inr s \<Rightarrow> Inr (exec es s))"

text \<open>
  The time of each call in a trace, in milliseconds from time \<open>t\<close>, when every timer
  fires exactly after its delay and nothing else takes time. A delay that is not a
  finite number from 0 upwards has no such reading.
\<close>

fun call_times :: "rat \<Rightarrow> obs list \<Rightarrow> (task \<times> rat) list option" where
  "call_times t [] = Some []"
| "call_times t (Call f # os) = map_option (\<lambda>r. (f, t) # r) (call_times t os)"
| "call_times t (SetTimeout (Fin d) # os) = (if 0 \<le> d then call_times (t + d) os else None)"
| "call_times t (SetTimeout _ # os) = None"
| "call_times t (SetInterval _ # os) = call_times t os"

text \<open>
  The chain of nodes: \<open>path h c as\<close> holds when following \<open>next\<close> in the store \<open>h\<close> from
  the cursor \<open>c\<close> visits exactly the addresses \<open>as\<close> and then ends.
\<close>

fun path :: "node list \<Rightarrow> addr option \<Rightarrow> addr list \<Rightarrow> bool" where
  "path h None as = (as = [])"
| "path h (Some a) [] = False"
| "path h (Some a) (b # bs) = (a = b \<and> a < length h \<and> path h (next (h ! a)) bs)"

definition tasks_at :: "node list \<Rightarrow> addr list \<Rightarrow> task list" where
  "tasks_at h as = map (\<lambda>a. fn (h ! a)) as"

section \<open>Predicates for stating the properties\<close>

text \<open>
  Every reference of a limiter points into the store, and \<open>tail\<close> is set whenever
  \<open>head\<close> is: the states in which \<open>heap s ! a\<close> and \<open>the (tail s)\<close> in the model read
  what the code reads. Every limiter that a constructor returns stays in this set.
\<close>

definition well_formed :: "'a rate_limit_fixed_scheme \<Rightarrow> bool" where
  "well_formed s \<longleftrightarrow>
     (\<forall>a. head s = Some a \<longrightarrow> a < length (heap s)) \<and>
     (\<forall>a. tail s = Some a \<longrightarrow> a < length (heap s)) \<and>
     (\<forall>a. priority_tail s = Some a \<longrightarrow> a < length (heap s)) \<and>
     (\<forall>a b. a < length (heap s) \<and> next (heap s ! a) = Some b \<longrightarrow> b < length (heap s)) \<and>
     (head s \<noteq> None \<longrightarrow> tail s \<noteq> None)"

text \<open>No task in the store throws; an event that brings no throwing task.\<close>

definition calm :: "'a rate_limit_fixed_scheme \<Rightarrow> bool" where
  "calm s \<longleftrightarrow> (\<forall>n \<in> set (heap s). \<not> throws (fn n))"

fun harmless :: "event \<Rightarrow> bool" where
  "harmless (Push f p) = (\<not> throws f)"
| "harmless _ = True"

text \<open>An event inside one quota window: a push of a task that does not throw, or a timeout.\<close>

fun quiet :: "event \<Rightarrow> bool" where
  "quiet (Push f p) = (\<not> throws f)"
| "quiet Timeout = True"
| "quiet Interval = False"

text \<open>The registrations of a recurring timer in a trace.\<close>

fun is_interval :: "obs \<Rightarrow> bool" where
  "is_interval (SetInterval _) = True"
| "is_interval _ = False"

text \<open>At most one invocation of \<open>run\<close> is suspended, and only while \<open>is_running\<close> is set.\<close>

definition single_flight :: "'a rate_limit_fixed_scheme \<Rightarrow> bool" where
  "single_flight s \<longleftrightarrow> sleeping s = 0 \<or> (sleeping s = 1 \<and> is_running s)"

text \<open>
  Between two events: beside \<open>single_flight\<close>, the limiter is running exactly when its
  queue is not empty, and an empty queue has all three cursors unset.
\<close>

definition steady :: "'a rate_limit_fixed_scheme \<Rightarrow> bool" where
  "steady s \<longleftrightarrow>
     single_flight s \<and> (is_running s \<longleftrightarrow> head s \<noteq> None) \<and>
     (head s = None \<longrightarrow> tail s = None \<and> priority_tail s = None)"


text \<open>
  The rationals that are doubles: rounding leaves them as they are. A count in range: a
  positive double up to \<open>2^53\<close>, whole or not.
\<close>

definition is_double :: "rat \<Rightarrow> bool" where
  "is_double x \<longleftrightarrow> to_double x = Fin x"

definition count_in_range :: "rat \<Rightarrow> bool" where
  "count_in_range q \<longleftrightarrow> 0 < q \<and> q \<le> 2 ^ 53 \<and> is_double q"

text \<open>
  What the burst loop emits for the tasks \<open>ts\<close> when \<open>m\<close> requests have been made in the
  window and the quota is \<open>q\<close>: each call, followed by a timer request once twice the
  count has reached the quota.
\<close>

fun pacing :: "nat \<Rightarrow> rat \<Rightarrow> jsnum \<Rightarrow> task list \<Rightarrow> obs list" where
  "pacing m q d [] = []"
| "pacing m q d (t # ts) =
     Call t # (if q \<le> 2 * of_nat (m + 1) then [SetTimeout d] else []) @ pacing (m + 1) q d ts"

section \<open>Rounding to a double\<close>

text \<open>
  The rounding is correct: \<open>ilog2\<close> is the exponent of the binade, and the rounded
  value lies within half a unit of the last place of the exact one. What the limiter
  needs of it: results of magnitude \<open>2^1024\<close> and more are infinite, a result keeps its sign,
  the comparison with one half is that of the exact quotient whenever this is not within
  \<open>2^-54\<close> below one half, and the relative error is at most \<open>2^-53\<close> for a result in
  the range of the normal doubles.
\<close>

lemma round_even_lower: "y - 1 / 2 \<le> of_int (round_even y)"
  unfolding round_even_def Let_def by (auto; linarith)

lemma round_even_upper: "of_int (round_even y) \<le> y + 1 / 2"
  unfolding round_even_def Let_def by (auto; linarith)

lemma round_even_floor: "\<lfloor>y\<rfloor> \<le> round_even y"
  unfolding round_even_def Let_def by auto

lemma round_even_of_int: "round_even (of_int k) = k"
  unfolding round_even_def Let_def by simp

lemma round_even_ge: "of_int k \<le> y \<Longrightarrow> k \<le> round_even y"
proof -
  assume "of_int k \<le> y"
  then have "k \<le> \<lfloor>y\<rfloor>" by (simp add: le_floor_iff)
  with round_even_floor [of y] show ?thesis by linarith
qed

lemma powi_pos: "0 < (2::rat) powi e"
  by (simp add: zero_less_power_int)

lemma powi_mono: "e \<le> e' \<Longrightarrow> (2::rat) powi e \<le> 2 powi e'"
  by (rule power_int_increasing) simp_all

lemma powi_strict_mono: "e < e' \<Longrightarrow> (2::rat) powi e < 2 powi e'"
  by (rule power_int_strict_increasing) simp_all

lemma powi_Suc: "(2::rat) powi (e + 1) = 2 * 2 powi e"
  by (simp add: power_int_add)

lemma ilog2_bounds:
  assumes "0 < x"
  shows "2 powi (ilog2 x) \<le> x \<and> x < 2 powi (ilog2 x + 1)"
proof -
  obtain p q where pq: "quotient_of x = (p, q)"
    by (cases "quotient_of x")
  then have q: "0 < q" and x: "x = of_int p / of_int q"
    using quotient_of_denom_pos [OF pq] quotient_of_div [OF pq] by simp_all
  from assms x q have p: "0 < p"
    by (simp add: zero_less_divide_iff)
  let ?e = "bitlen p - bitlen q"
  from bitlen_bounds [OF p] have p1: "2 ^ nat (bitlen p - 1) \<le> p" and p2: "p < 2 ^ nat (bitlen p)"
    by simp_all
  from bitlen_bounds [OF q] have q1: "2 ^ nat (bitlen q - 1) \<le> q" and q2: "q < 2 ^ nat (bitlen q)"
    by simp_all
  have bp: "1 \<le> bitlen p" and bq: "1 \<le> bitlen q"
    using p q bitlen_eq_zero_iff [of p] bitlen_eq_zero_iff [of q] bitlen_nonneg [of p]
      bitlen_nonneg [of q] by linarith+
  have P1: "(2::rat) powi (bitlen p - 1) \<le> of_int p"
  proof -
    have "(2::rat) powi (bitlen p - 1) = 2 ^ nat (bitlen p - 1)"
      using bp by (simp add: power_int_nonneg_exp)
    also have "\<dots> = of_int (2 ^ nat (bitlen p - 1))" by simp
    also have "\<dots> \<le> of_int p" using p1 by (simp only: of_int_le_iff)
    finally show ?thesis .
  qed
  have P2: "of_int p < (2::rat) powi (bitlen p)"
  proof -
    have "(of_int p :: rat) < of_int (2 ^ nat (bitlen p))"
      using p2 by (simp only: of_int_less_iff)
    also have "\<dots> = 2 ^ nat (bitlen p)" by simp
    also have "\<dots> = 2 powi (bitlen p)"
      using bp by (simp add: power_int_nonneg_exp)
    finally show ?thesis .
  qed
  have Q1: "(2::rat) powi (bitlen q - 1) \<le> of_int q"
  proof -
    have "(2::rat) powi (bitlen q - 1) = 2 ^ nat (bitlen q - 1)"
      using bq by (simp add: power_int_nonneg_exp)
    also have "\<dots> = of_int (2 ^ nat (bitlen q - 1))" by simp
    also have "\<dots> \<le> of_int q" using q1 by (simp only: of_int_le_iff)
    finally show ?thesis .
  qed
  have Q2: "of_int q < (2::rat) powi (bitlen q)"
  proof -
    have "(of_int q :: rat) < of_int (2 ^ nat (bitlen q))"
      using q2 by (simp only: of_int_less_iff)
    also have "\<dots> = 2 ^ nat (bitlen q)" by simp
    also have "\<dots> = 2 powi (bitlen q)"
      using bq by (simp add: power_int_nonneg_exp)
    finally show ?thesis .
  qed
  have qpos: "0 < (of_int q :: rat)" using q by simp
  have upper: "x < 2 powi (?e + 1)"
  proof -
    have "x * of_int q = of_int p" using x qpos by simp
    also have "\<dots> < 2 powi (bitlen p)" by (rule P2)
    also have "\<dots> = 2 powi (?e + 1) * 2 powi (bitlen q - 1)"
      by (simp add: power_int_add [symmetric])
    also have "\<dots> \<le> 2 powi (?e + 1) * of_int q"
      using Q1 powi_pos [of "?e + 1"] by (simp add: mult_left_mono)
    finally show ?thesis using qpos by simp
  qed
  have lower: "2 powi (?e - 1) < x"
  proof -
    have "(2::rat) powi (?e - 1) * of_int q < 2 powi (?e - 1) * 2 powi (bitlen q)"
      using Q2 powi_pos [of "?e - 1"] by (simp add: mult_strict_left_mono)
    also have "\<dots> = 2 powi (bitlen p - 1)"
      by (simp add: power_int_add [symmetric])
    also have "\<dots> \<le> of_int p" by (rule P1)
    also have "\<dots> = x * of_int q" using x qpos by simp
    finally show ?thesis using qpos by simp
  qed
  show ?thesis
  proof (cases "2 powi ?e \<le> x")
    case True
    then have "ilog2 x = ?e" by (simp add: ilog2_def pq)
    with True upper show ?thesis by simp
  next
    case False
    then have "ilog2 x = ?e - 1" by (simp add: ilog2_def pq)
    with False lower show ?thesis by simp
  qed
qed

lemma ilog2_unique:
  assumes "2 powi e \<le> x" "x < 2 powi (e + 1)"
  shows "ilog2 x = e"
proof -
  have pos: "0 < x" using assms(1) powi_pos [of e] by linarith
  note b = ilog2_bounds [OF pos]
  have "\<not> ilog2 x < e"
  proof
    assume "ilog2 x < e"
    then have "2 powi (ilog2 x + 1) \<le> (2::rat) powi e" by (intro powi_mono) simp
    with b assms(1) show False by linarith
  qed
  moreover have "\<not> e < ilog2 x"
  proof
    assume "e < ilog2 x"
    then have "2 powi (e + 1) \<le> (2::rat) powi (ilog2 x)" by (intro powi_mono) simp
    with b assms(2) show False by linarith
  qed
  ultimately show ?thesis by linarith
qed

lemma ilog2_ge: "2 powi e \<le> x \<Longrightarrow> e \<le> ilog2 x"
proof -
  assume a: "2 powi e \<le> x"
  then have pos: "0 < x" using powi_pos [of e] by linarith
  show "e \<le> ilog2 x"
  proof (rule ccontr)
    assume "\<not> e \<le> ilog2 x"
    then have "2 powi (ilog2 x + 1) \<le> (2::rat) powi e" by (intro powi_mono) simp
    with ilog2_bounds [OF pos] a show False by linarith
  qed
qed

lemma ilog2_less: "0 < x \<Longrightarrow> x < 2 powi e \<Longrightarrow> ilog2 x < e"
proof -
  assume pos: "0 < x" and a: "x < 2 powi e"
  show "ilog2 x < e"
  proof (rule ccontr)
    assume "\<not> ilog2 x < e"
    then have "2 powi e \<le> (2::rat) powi (ilog2 x)" by (intro powi_mono) simp
    with ilog2_bounds [OF pos] a show False by linarith
  qed
qed

lemma to_double_pos:
  assumes "0 < x"
  shows "to_double x =
     (let e = max (ilog2 x) (- 1022)
      in if 1024 \<le> e then PInf
         else
           (let u = 2 powi (e - 52); k = round_even (x / u)
            in if e = 1023 \<and> k = 2 ^ 53 then PInf
               else if k = 0 then Fin 0 else Fin (of_int k * u)))"
proof -
  have a: "(x = 0) = False" "(x < 0) = False" "\<bar>x\<bar> = x"
    using assms by simp_all
  show ?thesis
    unfolding to_double_def a if_False by (simp only: Let_def)
qed

lemma to_double_neg:
  assumes "x < 0"
  shows "to_double x =
     (let e = max (ilog2 (- x)) (- 1022)
      in if 1024 \<le> e then NInf
         else
           (let u = 2 powi (e - 52); k = round_even (- x / u)
            in if e = 1023 \<and> k = 2 ^ 53 then NInf
               else if k = 0 then NegZero else Fin (- (of_int k * u))))"
proof -
  have a: "(x = 0) = False" "(x < 0) = True" "\<bar>x\<bar> = - x"
    using assms by simp_all
  show ?thesis
    unfolding to_double_def a if_False if_True by (simp only: Let_def)
qed

lemma powi_52: "(2::rat) powi e / 2 powi (e - 52) = 2 ^ 52"
proof -
  have "(2::rat) powi (e - 52 + 52) = 2 powi (e - 52) * 2 powi 52"
    by (rule power_int_add) simp
  then show ?thesis using powi_pos [of "e - 52"] by simp
qed

lemma mantissa_ge:
  assumes "2 powi e \<le> x"
  shows "2 ^ 52 \<le> round_even (x / 2 powi (e - 52))"
proof -
  have "(2::rat) powi e / 2 powi (e - 52) \<le> x / 2 powi (e - 52)"
    using assms powi_pos [of "e - 52"] by (simp add: divide_right_mono)
  then have "rat_of_int (2 ^ 52) \<le> x / 2 powi (e - 52)"
    by (simp add: powi_52)
  then show ?thesis by (rule round_even_ge)
qed

lemma mantissa_pos:
  assumes "2 powi (e - 52) \<le> x"
  shows "1 \<le> round_even (x / 2 powi (e - 52))"
proof -
  have "rat_of_int 1 \<le> x / 2 powi (e - 52)"
    using assms powi_pos [of "e - 52"] by (simp add: le_divide_eq)
  then show ?thesis by (rule round_even_ge)
qed

lemma to_double_overflow:
  assumes "2 powi 1024 \<le> x"
  shows "to_double x = PInf"
proof -
  have pos: "0 < x" using assms powi_pos [of 1024] by linarith
  have "1024 \<le> ilog2 x" using assms by (rule ilog2_ge)
  then show ?thesis by (simp add: to_double_pos [OF pos] Let_def)
qed

lemma to_double_overflow_neg:
  assumes "x \<le> - (2 powi 1024)"
  shows "to_double x = NInf"
proof -
  have neg: "x < 0" using assms powi_pos [of 1024] by linarith
  have "1024 \<le> ilog2 (- x)" using assms by (intro ilog2_ge) simp
  then show ?thesis by (simp add: to_double_neg [OF neg] Let_def)
qed


lemma to_double_positive:
  assumes "2 powi (- 1074) \<le> x"
  shows "to_double x = PInf \<or> (\<exists>d. 2 powi (- 1074) \<le> d \<and> to_double x = Fin d)"
proof -
  let ?e = "max (ilog2 x) (- 1022)"
  let ?u = "(2::rat) powi (?e - 52)"
  let ?k = "round_even (x / ?u)"
  have pos: "0 < x" using assms powi_pos [of "- 1074"] by linarith
  have ux: "?u \<le> x"
  proof (cases "ilog2 x \<le> - 1022")
    case True
    then have "?e = - 1022" by simp
    then show ?thesis using assms by simp
  next
    case False
    then have "?e = ilog2 x" by simp
    moreover have "2 powi (ilog2 x - 52) \<le> (2::rat) powi (ilog2 x)"
      by (rule powi_mono) simp
    ultimately show ?thesis using ilog2_bounds [OF pos] by simp
  qed
  then have k: "1 \<le> ?k" by (rule mantissa_pos)
  have "(2::rat) powi (- 1074) \<le> ?u" by (rule powi_mono) simp
  also have "\<dots> \<le> of_int ?k * ?u"
  proof -
    have "(1::rat) \<le> of_int ?k" using k by simp
    then have "1 * ?u \<le> of_int ?k * ?u"
      using powi_pos [of "?e - 52"] by (simp only: mult_right_mono less_imp_le)
    then show ?thesis by simp
  qed
  finally have "2 powi (- 1074) \<le> of_int ?k * ?u" .
  with k show ?thesis
    by (auto simp add: to_double_pos [OF pos] Let_def)
qed


lemma to_double_ge_half:
  assumes "1 / 2 \<le> x"
  shows "to_double x = PInf \<or> (\<exists>d. 1 / 2 \<le> d \<and> to_double x = Fin d)"
proof -
  let ?e = "max (ilog2 x) (- 1022)"
  let ?u = "(2::rat) powi (?e - 52)"
  let ?k = "round_even (x / ?u)"
  have pos: "0 < x" using assms by simp
  have "(2::rat) powi (- 1) \<le> x" using assms by (simp add: power_int_minus)
  then have e1: "- 1 \<le> ilog2 x" by (rule ilog2_ge)
  then have e: "?e = ilog2 x" by simp
  have "2 powi ?e \<le> x" using ilog2_bounds [OF pos] e by simp
  then have k: "2 ^ 52 \<le> ?k" by (rule mantissa_ge)
  have "(1 / 2 :: rat) = 2 powi (- 1)" by (simp add: power_int_minus)
  also have "\<dots> \<le> 2 powi ?e" using e1 e by (intro powi_mono) simp
  also have "\<dots> = 2 ^ 52 * ?u"
    using powi_52 [of ?e] powi_pos [of "?e - 52"] by (simp add: field_simps)
  also have "\<dots> \<le> of_int ?k * ?u"
  proof -
    have "(2 ^ 52 :: rat) \<le> of_int ?k" using k by (metis of_int_le_iff of_int_numeral of_int_power)
    then show ?thesis using powi_pos [of "?e - 52"] by (simp add: mult_right_mono)
  qed
  finally have "1 / 2 \<le> of_int ?k * ?u" .
  moreover have "?k \<noteq> 0" using k by simp
  ultimately show ?thesis
    by (auto simp add: to_double_pos [OF pos] Let_def)
qed

lemma to_double_less_half:
  assumes "0 < x" "x \<le> 1 / 2 - 2 powi (- 54)"
  shows "\<exists>d. d < 1 / 2 \<and> to_double x = Fin d"
proof -
  let ?e = "max (ilog2 x) (- 1022)"
  let ?u = "(2::rat) powi (?e - 52)"
  let ?k = "round_even (x / ?u)"
  have "x < 2 powi (- 1)"
    using assms(2) powi_pos [of "- 54"] by (simp add: power_int_minus)
  then have "ilog2 x < - 1" using assms(1) by (intro ilog2_less)
  then have e: "?e \<le> - 2" by simp
  then have u: "?u \<le> 2 powi (- 54)" by (intro powi_mono) simp
  have upos: "0 < ?u" by (rule powi_pos)
  have "of_int ?k * ?u \<le> (x / ?u + 1 / 2) * ?u"
    using round_even_upper [of "x / ?u"] upos by (simp only: mult_right_mono less_imp_le)
  also have "\<dots> = x + ?u / 2" using upos by (simp add: field_simps)
  also have "\<dots> \<le> x + 2 powi (- 54) / 2" using u by simp
  also have "\<dots> < 1 / 2" using assms(2) powi_pos [of "- 54"] by linarith
  finally have r: "of_int ?k * ?u < 1 / 2" .
  from e have ne: "\<not> 1024 \<le> ?e" "?e \<noteq> 1023" by linarith+
  show ?thesis
  proof (cases "?k = 0")
    case True
    then have "to_double x = Fin 0"
      using ne by (simp add: to_double_pos [OF assms(1)] Let_def)
    then show ?thesis by simp
  next
    case False
    then have "to_double x = Fin (of_int ?k * ?u)"
      using ne by (simp add: to_double_pos [OF assms(1)] Let_def)
    with r show ?thesis by simp
  qed
qed

lemma to_double_error:
  assumes "2 powi (- 1022) \<le> x" "x \<le> 2 powi 1023"
  shows "\<exists>d. to_double x = Fin d \<and> \<bar>d - x\<bar> \<le> x / 2 ^ 53 \<and> 0 < d"
proof -
  let ?e = "max (ilog2 x) (- 1022)"
  let ?u = "(2::rat) powi (?e - 52)"
  let ?k = "round_even (x / ?u)"
  have pos: "0 < x" using assms(1) powi_pos [of "- 1022"] by linarith
  have "- 1022 \<le> ilog2 x" using assms(1) by (rule ilog2_ge)
  then have e: "?e = ilog2 x" by simp
  have lo: "2 powi ?e \<le> x" using ilog2_bounds [OF pos] e by simp
  then have k: "2 ^ 52 \<le> ?k" by (rule mantissa_ge)
  have upos: "0 < ?u" by (rule powi_pos)
  have e_le: "?e \<le> 1023"
  proof (rule ccontr)
    assume "\<not> ?e \<le> 1023"
    then have "2 powi 1024 \<le> (2::rat) powi ?e" by (intro powi_mono) simp
    moreover have "(2::rat) powi 1023 < 2 powi 1024" by (rule powi_strict_mono) simp
    ultimately show False using lo assms(2) by linarith
  qed
  have no_over: "\<not> (?e = 1023 \<and> ?k = 2 ^ 53)"
  proof
    assume h: "?e = 1023 \<and> ?k = 2 ^ 53"
    then have "x = 2 powi ?e" using lo assms(2) by simp
    then have "x / ?u = 2 powi ?e / ?u" by simp
    also have "\<dots> = 2 ^ 52" by (rule powi_52)
    finally have "x / ?u = rat_of_int (2 ^ 52)" by simp
    then have "?k = 2 ^ 52" by (simp only: round_even_of_int)
    with h show False by simp
  qed
  have "\<bar>of_int ?k - x / ?u\<bar> \<le> 1 / 2"
    using round_even_lower [of "x / ?u"] round_even_upper [of "x / ?u"] by linarith
  then have "\<bar>of_int ?k - x / ?u\<bar> * ?u \<le> 1 / 2 * ?u"
    using upos by (simp only: mult_right_mono less_imp_le)
  moreover have "\<bar>of_int ?k - x / ?u\<bar> * ?u = \<bar>of_int ?k * ?u - x\<bar>"
  proof -
    have "\<bar>of_int ?k - x / ?u\<bar> * ?u = \<bar>(of_int ?k - x / ?u) * ?u\<bar>"
      using upos by (simp add: abs_mult)
    also have "(of_int ?k - x / ?u) * ?u = of_int ?k * ?u - x"
      using upos by (simp add: field_simps)
    finally show ?thesis .
  qed
  moreover have "1 / 2 * ?u \<le> x / 2 ^ 53"
  proof -
    have "?u = 2 powi ?e / 2 ^ 52"
      using powi_52 [of ?e] upos by (simp add: field_simps)
    then have "1 / 2 * ?u = 2 powi ?e / 2 ^ 53" by simp
    also have "\<dots> \<le> x / 2 ^ 53" using lo by (simp add: divide_right_mono)
    finally show ?thesis .
  qed
  ultimately have err: "\<bar>of_int ?k * ?u - x\<bar> \<le> x / 2 ^ 53" by linarith
  have "0 < ?k" using k by simp
  then have dpos: "0 < of_int ?k * ?u" using upos by simp
  have "to_double x = Fin (of_int ?k * ?u)"
    using e_le no_over \<open>0 < ?k\<close> by (simp add: to_double_pos [OF pos] Let_def)
  with err dpos show ?thesis by simp
qed

lemma to_double_exact:
  assumes "2 powi e \<le> x" "x < 2 powi (e + 1)" "- 1022 \<le> e" "e \<le> 1023"
    "x = of_int k * 2 powi (e - 52)"
  shows "to_double x = Fin x"
proof -
  have pos: "0 < x" using assms(1) powi_pos [of e] by linarith
  have il: "ilog2 x = e" using assms(1,2) by (rule ilog2_unique)
  then have e: "max (ilog2 x) (- 1022) = e" using assms(3) by simp
  have upos: "0 < (2::rat) powi (e - 52)" by (rule powi_pos)
  have "x / 2 powi (e - 52) = of_int k" using assms(5) upos by simp
  then have k: "round_even (x / 2 powi (e - 52)) = k" by (simp only: round_even_of_int)
  have kpos: "0 < k"
    using pos assms(5) upos by (simp add: zero_less_mult_iff)
  have "k \<noteq> 2 ^ 53"
  proof
    assume "k = 2 ^ 53"
    then have "x = 2 ^ 53 * 2 powi (e - 52)" using assms(5) by simp
    also have "\<dots> = 2 powi (e + 1)"
    proof -
      have "(2::rat) powi (53 + (e - 52)) = 2 powi 53 * 2 powi (e - 52)"
        by (rule power_int_add) simp
      then show ?thesis by (simp add: add.commute)
    qed
    finally show False using assms(2) by simp
  qed
  then have "to_double x = Fin (of_int k * 2 powi (e - 52))"
    using assms(4) kpos by (simp add: to_double_pos [OF pos] Let_def e k)
  then show ?thesis by (simp only: assms(5) [symmetric])
qed

text \<open>
  Rounding goes to a nearest double: no double lies nearer to a positive exact result
  than the finite value it is rounded to. Every double is a multiple of the unit of each
  binade that is not above its own; a rounded value is a double, and so is its double.
\<close>

lemma round_even_nearest: "\<bar>of_int (round_even z) - z\<bar> \<le> \<bar>of_int j - z\<bar>"
proof (cases "j = round_even z")
  case True
  then show ?thesis by simp
next
  case False
  then have "1 \<le> \<bar>j - round_even z\<bar>" by simp
  then have "(1::rat) \<le> \<bar>of_int j - of_int (round_even z)\<bar>"
    by (metis of_int_1 of_int_abs of_int_diff of_int_le_iff)
  moreover have "\<bar>of_int (round_even z) - z\<bar> \<le> 1 / 2"
    using round_even_lower [of z] round_even_upper [of z] by linarith
  ultimately show ?thesis by linarith
qed

lemma powi_split:
  assumes "e \<le> e'"
  shows "(2::rat) powi (e' - 52) = of_int (2 ^ nat (e' - e)) * 2 powi (e - 52)"
proof -
  have "(2::rat) powi (e' - e + (e - 52)) = 2 powi (e' - e) * 2 powi (e - 52)"
    by (rule power_int_add) simp
  moreover have "(2::rat) powi (e' - e) = 2 ^ nat (e' - e)"
    using assms by (simp add: power_int_nonneg_exp)
  ultimately show ?thesis by simp
qed

lemma double_grid:
  assumes "is_double y" "e \<le> max (ilog2 \<bar>y\<bar>) (- 1022)"
  shows "\<exists>j. y = of_int j * 2 powi (e - 52)"
proof -
  let ?e = "max (ilog2 \<bar>y\<bar>) (- 1022)"
  let ?u = "(2::rat) powi (?e - 52)"
  note split = powi_split [OF assms(2)]
  consider (zero) "y = 0" | (pos) "0 < y" | (neg) "y < 0" by linarith
  then show ?thesis
  proof cases
    case zero
    then have "y = of_int 0 * 2 powi (e - 52)" by simp
    then show ?thesis by blast
  next
    case pos
    let ?k = "round_even (y / ?u)"
    from pos have a: "\<bar>y\<bar> = y" by simp
    from assms(1) have "to_double y = Fin y" by (simp add: is_double_def)
    then have "y = of_int ?k * ?u \<or> y = 0"
      by (simp add: to_double_pos [OF pos] Let_def a split: if_splits)
    with pos have "y = of_int ?k * ?u" by simp
    then obtain k where "y = of_int k * ?u" by blast
    also have "\<dots> = of_int k * (of_int (2 ^ nat (?e - e)) * 2 powi (e - 52))"
      by (simp only: split)
    also have "\<dots> = of_int (k * 2 ^ nat (?e - e)) * 2 powi (e - 52)"
      by (simp add: mult.assoc)
    finally show ?thesis by blast
  next
    case neg
    let ?k = "round_even (- y / ?u)"
    from neg have a: "\<bar>y\<bar> = - y" by simp
    from assms(1) have "to_double y = Fin y" by (simp add: is_double_def)
    then have "y = - (of_int ?k * ?u)"
      by (simp add: to_double_neg [OF neg] Let_def a split: if_splits)
    then have "y = of_int (- ?k) * ?u" by simp
    then obtain k where "y = of_int k * ?u" by blast
    also have "\<dots> = of_int k * (of_int (2 ^ nat (?e - e)) * 2 powi (e - 52))"
      by (simp only: split)
    also have "\<dots> = of_int (k * 2 ^ nat (?e - e)) * 2 powi (e - 52)"
      by (simp add: mult.assoc)
    finally show ?thesis by blast
  qed
qed

lemma to_double_nearest:
  assumes "0 < x" "to_double x = Fin d" "is_double y"
  shows "\<bar>d - x\<bar> \<le> \<bar>y - x\<bar>"
proof -
  let ?e = "max (ilog2 x) (- 1022)"
  let ?u = "(2::rat) powi (?e - 52)"
  let ?k = "round_even (x / ?u)"
  have upos: "0 < ?u" by (rule powi_pos)
  from assms(2) have d: "d = of_int ?k * ?u"
    by (auto simp add: to_double_pos [OF assms(1)] Let_def split: if_splits)
  have grid: "\<bar>d - x\<bar> \<le> \<bar>of_int j * ?u - x\<bar>" for j
  proof -
    have "\<bar>of_int ?k - x / ?u\<bar> * ?u \<le> \<bar>of_int j - x / ?u\<bar> * ?u"
      using round_even_nearest [of "x / ?u" j] upos by (simp only: mult_right_mono less_imp_le)
    moreover have "\<bar>of_int i - x / ?u\<bar> * ?u = \<bar>of_int i * ?u - x\<bar>" for i
    proof -
      have "\<bar>of_int i - x / ?u\<bar> * ?u = \<bar>(of_int i - x / ?u) * ?u\<bar>"
        using upos by (simp add: abs_mult)
      also have "(of_int i - x / ?u) * ?u = of_int i * ?u - x"
        using upos by (simp add: field_simps)
      finally show ?thesis .
    qed
    ultimately show ?thesis by (simp add: d)
  qed
  show ?thesis
  proof (cases "?e \<le> max (ilog2 \<bar>y\<bar>) (- 1022)")
    case True
    from double_grid [OF assms(3) True] obtain j where "y = of_int j * ?u" by blast
    with grid [of j] show ?thesis by simp
  next
    case False
    then have e: "- 1022 < ?e" "ilog2 \<bar>y\<bar> < ?e" by simp_all
    then have ex: "?e = ilog2 x" by simp
    have lo: "2 powi ?e \<le> x" using ilog2_bounds [OF assms(1)] ex by simp
    have small: "\<bar>y\<bar> < 2 powi ?e"
    proof (cases "y = 0")
      case True
      then show ?thesis using powi_pos [of ?e] by simp
    next
      case False
      then have "0 < \<bar>y\<bar>" by simp
      from ilog2_bounds [OF this] have "\<bar>y\<bar> < 2 powi (ilog2 \<bar>y\<bar> + 1)" by simp
      also have "\<dots> \<le> 2 powi ?e" using e(2) by (intro powi_mono) simp
      finally show ?thesis .
    qed
    have "(2::rat) powi ?e = of_int (2 ^ 52) * ?u"
      using powi_52 [of ?e] upos by (simp add: field_simps)
    with grid [of "2 ^ 52"] have "\<bar>d - x\<bar> \<le> \<bar>2 powi ?e - x\<bar>" by simp
    also have "\<dots> = x - 2 powi ?e" using lo by simp
    also have "\<dots> \<le> \<bar>y - x\<bar>" using small lo by linarith
    finally show ?thesis .
  qed
qed

lemma to_double_idem:
  assumes "2 powi (- 1022) \<le> x" "to_double x = Fin d"
  shows "is_double d \<and> 2 powi (- 1022) \<le> d"
proof -
  let ?e = "max (ilog2 x) (- 1022)"
  let ?u = "(2::rat) powi (?e - 52)"
  let ?k = "round_even (x / ?u)"
  have pos: "0 < x" using assms(1) powi_pos [of "- 1022"] by linarith
  have upos: "0 < ?u" by (rule powi_pos)
  have "- 1022 \<le> ilog2 x" using assms(1) by (rule ilog2_ge)
  then have e: "?e = ilog2 x" by simp
  have lo: "2 powi ?e \<le> x" and hi: "x < 2 powi (?e + 1)"
    using ilog2_bounds [OF pos] e by simp_all
  from lo have k1: "2 ^ 52 \<le> ?k" by (rule mantissa_ge)
  have k2: "?k \<le> 2 ^ 53"
  proof -
    have "x / ?u < 2 powi (?e + 1) / ?u"
      using hi upos by (simp add: divide_strict_right_mono)
    also have "\<dots> = 2 * (2 powi ?e / ?u)" by (simp add: powi_Suc)
    also have "\<dots> = 2 ^ 53" by (simp only: powi_52) simp
    finally have "x / ?u < 2 ^ 53" .
    with round_even_upper [of "x / ?u"] have "rat_of_int ?k < of_int (2 ^ 53 + 1)" by simp
    then have "?k < 2 ^ 53 + 1" by (simp only: of_int_less_iff)
    then show ?thesis by simp
  qed
  from assms(2) have d: "d = of_int ?k * ?u" and fin: "\<not> 1024 \<le> ?e" "\<not> (?e = 1023 \<and> ?k = 2 ^ 53)"
    by (auto simp add: to_double_pos [OF pos] Let_def split: if_splits)
  have e52: "(2::rat) powi ?e = 2 ^ 52 * ?u"
    using powi_52 [of ?e] upos by (simp add: field_simps)
  have dlo: "2 powi ?e \<le> d"
  proof -
    have "(2 ^ 52 :: rat) \<le> of_int ?k" using k1 by (metis of_int_le_iff of_int_numeral of_int_power)
    then have "2 ^ 52 * ?u \<le> of_int ?k * ?u"
      using upos by (simp only: mult_right_mono less_imp_le)
    then show ?thesis by (simp only: e52 d)
  qed
  have "(2::rat) powi (- 1022) \<le> 2 powi ?e" by (rule powi_mono) simp
  with dlo have low: "2 powi (- 1022) \<le> d" by linarith
  show ?thesis
  proof (cases "?k = 2 ^ 53")
    case True
    then have "d = 2 ^ 53 * ?u" using d by simp
    also have "\<dots> = 2 powi (?e + 1)" by (simp add: powi_Suc e52)
    finally have d1: "d = 2 powi (?e + 1)" .
    have "d < 2 powi (?e + 1 + 1)" unfolding d1 by (rule powi_strict_mono) simp
    moreover have "d = of_int (2 ^ 52) * 2 powi (?e + 1 - 52)"
      using powi_52 [of "?e + 1"] powi_pos [of "?e + 1 - 52"] by (simp add: d1 field_simps)
    moreover have "?e + 1 \<le> 1023" using fin True by linarith
    moreover have "2 powi (?e + 1) \<le> d" using d1 by simp
    ultimately have "to_double d = Fin d"
      by (intro to_double_exact [of "?e + 1" d "2 ^ 52"]) simp_all
    with low show ?thesis by (simp add: is_double_def)
  next
    case False
    with k2 have "?k < 2 ^ 53" by simp
    then have "rat_of_int ?k < 2 ^ 53" by (metis of_int_less_iff of_int_numeral of_int_power)
    then have "of_int ?k * ?u < 2 ^ 53 * ?u"
      using upos by (simp only: mult_strict_right_mono)
    also have "\<dots> = 2 powi (?e + 1)" by (simp add: powi_Suc e52)
    finally have "d < 2 powi (?e + 1)" by (simp only: d)
    moreover have "?e \<le> 1023" using fin by linarith
    ultimately have "to_double d = Fin d"
      using dlo d by (intro to_double_exact [of ?e d ?k]) simp_all
    with low show ?thesis by (simp add: is_double_def)
  qed
qed

lemma double_twice:
  assumes "is_double x" "2 powi (- 1022) \<le> x" "x < 2 powi 1023"
  shows "to_double (2 * x) = Fin (2 * x)"
proof -
  let ?e = "ilog2 x"
  have pos: "0 < x" using assms(2) powi_pos [of "- 1022"] by linarith
  have e1: "- 1022 \<le> ?e" using assms(2) by (rule ilog2_ge)
  have e2: "?e < 1023" using pos assms(3) by (rule ilog2_less)
  have "?e \<le> max (ilog2 \<bar>x\<bar>) (- 1022)" using pos by simp
  from double_grid [OF assms(1) this] obtain j where j: "x = of_int j * 2 powi (?e - 52)"
    by blast
  note b = ilog2_bounds [OF pos]
  have s1: "(2::rat) powi (?e + 1) = 2 * 2 powi ?e" by (rule powi_Suc)
  have s2: "(2::rat) powi (?e + 1 + 1) = 2 * 2 powi (?e + 1)" by (rule powi_Suc)
  have "2 powi (?e + 1) \<le> 2 * x" "2 * x < 2 powi (?e + 1 + 1)"
    using b s1 s2 by linarith+
  moreover have "2 * x = of_int j * 2 powi (?e + 1 - 52)"
  proof -
    have "(2::rat) powi (?e - 52 + 1) = 2 * 2 powi (?e - 52)" by (rule powi_Suc)
    moreover have "?e + 1 - 52 = ?e - 52 + 1" by simp
    ultimately show ?thesis using j by simp
  qed
  ultimately show ?thesis
    using e1 e2 by (intro to_double_exact [of "?e + 1" "2 * x" j]) simp_all
qed

section \<open>Construction\<close>

lemma jsdiv_finite:
  "b \<noteq> 0 \<Longrightarrow> a \<noteq> 0 \<Longrightarrow> jsdiv (Fin a) (Fin b) = to_double (a / b)"
  by (simp add: jsdiv_def)





lemma jsdiv_NInf_by_half: "jsdiv NInf (Fin (1 - limit_after_percent)) = NInf"
  by (simp add: jsdiv_def limit_after_percent_def)

lemma jsdiv_by_half:
  "a \<noteq> 0 \<Longrightarrow> jsdiv (Fin a) (Fin (1 - limit_after_percent)) = to_double (2 * a)"
  by (simp add: jsdiv_def limit_after_percent_def mult.commute)

lemma interval_ms_of_cases:
  "interval_ms_of i = Some ms \<longleftrightarrow>
     (i = Some ''per second'' \<and> ms = 1000) \<or> (i = Some ''per minute'' \<and> ms = 60000) \<or>
     (i = Some ''per hour'' \<and> ms = 3600000) \<or> (i = Some ''per day'' \<and> ms = 86400000)"
  by (auto simp: interval_ms_of_def)

lemma interval_ms_of_None:
  "interval_ms_of i = None \<longleftrightarrow>
     i \<notin> {Some ''per second'', Some ''per minute'', Some ''per hour'', Some ''per day''}"
  by (auto simp: interval_ms_of_def)

lemma interval_ms_of_pos: "interval_ms_of i = Some ms \<Longrightarrow> 0 < ms"
  by (auto simp: interval_ms_of_cases)

lemma constructor_fixed_eq:
  assumes "parse_args args = (n, i)"
  shows "constructor_fixed args =
     (case interval_ms_of i of None \<Rightarrow> Inl InvalidDuration
      | Some ms \<Rightarrow> Inr (fresh (jsdiv (Fin ms) n)))"
  using assms by (simp add: constructor_fixed_def interval_ms_of_def)

lemma constructor_eq:
  assumes "parse_args args = (n, i)"
  shows "constructor args =
     (case interval_ms_of i of None \<Rightarrow> Inl InvalidDuration
      | Some ms \<Rightarrow>
          Inr \<lparr>delay_ms = jsdiv (jsdiv (Fin ms) n) (Fin (1 - limit_after_percent)),
               head = None, priority_tail = None, tail = None, is_running = False,
               heap = [], trace = [SetInterval ms], sleeping = 0,
               requests_made = 0, requests_allowed = n\<rparr>)"
  using assms by (simp add: constructor_def)

lemma parse_invalid_spec: "parse_args (Spec ''Invalid Spec'') = (NaN, Some ''Spec'')"
  by (simp add: parse_args_def split_spec_def parseInt_def is_digit_def
      is_white_space_def is_line_terminator_def)

text \<open>
  C5. The unit string selects one of four durations: \<open>per second\<close> 1,000 ms,
  \<open>per minute\<close> 60,000 ms, \<open>per hour\<close> 3,600,000 ms, \<open>per day\<close> 86,400,000 ms. With
  the unit that the arguments give (the second argument, or what follows the first run
  of spaces of the specification string; possibly none), construction succeeds with
  that duration when the unit is one of the four: the burst variant registers its quota
  timer with it, the fixed variant divides it by the count. For every other unit,
  and for the string \<open>Invalid Spec\<close>, both constructors fail with \<open>InvalidDuration\<close> and
  return no limiter.
\<close>

theorem constructor_unit_duration:
  assumes "parse_args args = (n, i)"
  shows "(\<forall>u ms. i = Some u \<and>
            (u, ms) \<in> {(''per second'', 1000), (''per minute'', 60000),
                       (''per hour'', 3600000), (''per day'', 86400000)} \<longrightarrow>
            (\<exists>s. constructor args = Inr s \<and> trace s = [SetInterval ms] \<and>
                 delay_ms s = jsdiv (jsdiv (Fin ms) n) (Fin (1 - limit_after_percent))) \<and>
            (\<exists>s. constructor_fixed args = Inr s \<and> delay_ms s = jsdiv (Fin ms) n))
       \<and> (i \<notin> {Some ''per second'', Some ''per minute'', Some ''per hour'', Some ''per day''} \<longrightarrow>
            constructor args = Inl InvalidDuration \<and>
            constructor_fixed args = Inl InvalidDuration)
       \<and> constructor (Spec ''Invalid Spec'') = Inl InvalidDuration
       \<and> constructor_fixed (Spec ''Invalid Spec'') = Inl InvalidDuration"
proof (intro conjI allI impI)
  fix u :: string and ms :: rat
  assume h: "i = Some u \<and>
    (u, ms) \<in> {(''per second'', 1000), (''per minute'', 60000),
               (''per hour'', 3600000), (''per day'', 86400000)}"
  then have ms: "interval_ms_of i = Some ms"
    by (auto simp: interval_ms_of_def)
  show "\<exists>s. constructor args = Inr s \<and> trace s = [SetInterval ms] \<and>
          delay_ms s = jsdiv (jsdiv (Fin ms) n) (Fin (1 - limit_after_percent))"
    by (simp add: constructor_eq [OF assms] ms)
  show "\<exists>s. constructor_fixed args = Inr s \<and> delay_ms s = jsdiv (Fin ms) n"
    by (simp add: constructor_fixed_eq [OF assms] ms fresh_def)
next
  assume "i \<notin> {Some ''per second'', Some ''per minute'', Some ''per hour'', Some ''per day''}"
  then have none: "interval_ms_of i = None"
    using interval_ms_of_None [of i] by blast
  show "constructor args = Inl InvalidDuration"
    by (simp add: constructor_eq [OF assms] none)
  show "constructor_fixed args = Inl InvalidDuration"
    by (simp add: constructor_fixed_eq [OF assms] none)
next
  show "constructor (Spec ''Invalid Spec'') = Inl InvalidDuration"
    by (simp add: constructor_eq [OF parse_invalid_spec] interval_ms_of_def)
  show "constructor_fixed (Spec ''Invalid Spec'') = Inl InvalidDuration"
    by (simp add: constructor_fixed_eq [OF parse_invalid_spec] interval_ms_of_def)
qed


lemma parse_60_per_minute: "parse_args (Spec ''60 per minute'') = (Fin 60, Some ''per minute'')"
  by code_simp

theorem constructor_unit_duration_witness:
  "(\<exists>s. constructor (Spec ''60 per minute'') = Inr s \<and> trace s = [SetInterval 60000] \<and>
        delay_ms s = Fin 2000)
   \<and> (\<exists>s. constructor_fixed (Spec ''60 per minute'') = Inr s \<and> delay_ms s = Fin 1000)
   \<and> constructor (Rate (Fin 5) ''per week'') = Inl InvalidDuration
   \<and> constructor_fixed (Rate (Fin 5) ''per week'') = Inl InvalidDuration"
proof -
  have p2: "parse_args (Rate (Fin 5) ''per week'') = (Fin 5, Some ''per week'')"
    by (simp add: parse_args_def)
  have d1: "jsdiv (jsdiv (Fin 60000) (Fin 60)) (Fin (1 - limit_after_percent)) = Fin 2000"
    by code_simp
  have d2: "jsdiv (Fin 60000) (Fin 60) = Fin 1000"
    by code_simp
  from constructor_unit_duration [OF parse_60_per_minute]
  have "(\<exists>s. constructor (Spec ''60 per minute'') = Inr s \<and> trace s = [SetInterval 60000] \<and>
           delay_ms s = jsdiv (jsdiv (Fin 60000) (Fin 60)) (Fin (1 - limit_after_percent))) \<and>
        (\<exists>s. constructor_fixed (Spec ''60 per minute'') = Inr s \<and>
           delay_ms s = jsdiv (Fin 60000) (Fin 60))"
    by blast
  moreover from constructor_unit_duration [OF p2]
  have "constructor (Rate (Fin 5) ''per week'') = Inl InvalidDuration \<and>
        constructor_fixed (Rate (Fin 5) ''per week'') = Inl InvalidDuration"
    by simp
  ultimately show ?thesis
    using d1 d2 by simp
qed

text \<open>
  \<open>parseInt\<close> returns a double: an integer above \<open>2^53\<close> is rounded, and a digit run
  that denotes \<open>10^309\<close> gives Infinity.
\<close>

lemma parseInt_rounds:
  "parseInt ''  +42abc'' = Fin 42"
  "parseInt ''-0'' = NegZero"
  "parseInt ''9007199254740993'' = Fin 9007199254740992"
  "parseInt ''-9007199254740995'' = Fin (- 9007199254740996)"
  "parseInt ''1000000000000000000000000000000000000000000000000000000000000000000000000000000000000000000000000000000000000000000000000000000000000000000000000000000000000000000000000000000000000000000000000000000000000000000000000000000000000000000000000000000000000000000000000000000000000000000000000000000000000000000000'' = PInf"
  by code_simp+






text \<open>
  Two negative counts, in both variants: -5 per hour gives the delay -720000 ms
  (-1440000 ms in the burst variant), and the count \<open>-2^-1022\<close> per day gives minus
  infinity, the quotient being beyond the largest double.
\<close>

lemma overflowing_count:
  assumes "86400000 / c \<le> - (2 powi 1024)"
  shows "constructor_fixed (Rate (Fin c) ''per day'') = Inr (fresh NInf)"
    and "\<exists>s. constructor (Rate (Fin c) ''per day'') = Inr s \<and> delay_ms s = NInf"
proof -
  have p: "parse_args (Rate (Fin c) ''per day'') = (Fin c, Some ''per day'')"
    by (simp add: parse_args_def)
  have "0 < (2::rat) powi 1024" by (rule powi_pos)
  with assms have "c \<noteq> 0" by auto
  then have e: "jsdiv (Fin 86400000) (Fin c) = NInf"
    using to_double_overflow_neg [OF assms] by (simp add: jsdiv_finite)
  show "constructor_fixed (Rate (Fin c) ''per day'') = Inr (fresh NInf)"
    by (simp add: constructor_fixed_eq [OF p] interval_ms_of_def e)
  show "\<exists>s. constructor (Rate (Fin c) ''per day'') = Inr s \<and> delay_ms s = NInf"
    by (simp add: constructor_eq [OF p] interval_ms_of_def e jsdiv_NInf_by_half)
qed

lemma negative_count_delays:
  "constructor_fixed (Rate (Fin (- 5)) ''per hour'') = Inr (fresh (Fin (- 720000)))"
  "\<exists>s. constructor (Rate (Fin (- 5)) ''per hour'') = Inr s \<and> delay_ms s = Fin (- 1440000)"
  "constructor_fixed (Rate (Fin (- (1 / 2 ^ 1022))) ''per day'') = Inr (fresh NInf)"
  "\<exists>s. constructor (Rate (Fin (- (1 / 2 ^ 1022))) ''per day'') = Inr s \<and> delay_ms s = NInf"
proof -
  have p: "parse_args (Rate (Fin (- 5)) ''per hour'') = (Fin (- 5), Some ''per hour'')"
    by (simp add: parse_args_def)
  have d: "jsdiv (Fin 3600000) (Fin (- 5)) = Fin (- 720000)"
    "jsdiv (Fin (- 720000)) (Fin (1 - limit_after_percent)) = Fin (- 1440000)"
    by code_simp+
  have t: "(86400000 :: rat) / - (1 / 2 ^ 1022) \<le> - (2 powi 1024)"
    by simp
  show "constructor_fixed (Rate (Fin (- 5)) ''per hour'') = Inr (fresh (Fin (- 720000)))"
    by (simp add: constructor_fixed_eq [OF p] interval_ms_of_def d)
  show "\<exists>s. constructor (Rate (Fin (- 5)) ''per hour'') = Inr s \<and> delay_ms s = Fin (- 1440000)"
    by (simp add: constructor_eq [OF p] interval_ms_of_def d)
  show "constructor_fixed (Rate (Fin (- (1 / 2 ^ 1022))) ''per day'') = Inr (fresh NInf)"
    using t by (rule overflowing_count(1))
  show "\<exists>s. constructor (Rate (Fin (- (1 / 2 ^ 1022))) ''per day'') = Inr s \<and> delay_ms s = NInf"
    using t by (rule overflowing_count(2))
qed

lemma constructor_count:
  assumes "constructor args = Inr b0" "parse_args args = (n, i)" "interval_ms_of i = Some ms"
  shows "b0 = \<lparr>delay_ms = jsdiv (jsdiv (Fin ms) n) (Fin (1 - limit_after_percent)),
               head = None, priority_tail = None, tail = None, is_running = False,
               heap = [], trace = [SetInterval ms], sleeping = 0,
               requests_made = 0, requests_allowed = n\<rparr>"
  using assms by (simp add: constructor_eq)

lemma parse_4_per_second: "parse_args (Spec ''4 per second'') = (Fin 4, Some ''per second'')"
  by code_simp

lemma constructor_4_per_second:
  "constructor (Spec ''4 per second'') =
     Inr \<lparr>delay_ms = Fin 500, head = None, priority_tail = None, tail = None,
          is_running = False, heap = [], trace = [SetInterval 1000], sleeping = 0,
          requests_made = 0, requests_allowed = Fin 4\<rparr>"
  by code_simp

section \<open>Linking a node\<close>

lemma enqueue_is_running [simp]: "is_running (enqueue f p s) = is_running s"
  by (simp add: enqueue_def Let_def)

lemma enqueue_sleeping [simp]: "sleeping (enqueue f p s) = sleeping s"
  by (simp add: enqueue_def Let_def)

lemma enqueue_trace [simp]: "trace (enqueue f p s) = trace s"
  by (simp add: enqueue_def Let_def)

lemma enqueue_delay_ms [simp]: "delay_ms (enqueue f p s) = delay_ms s"
  by (simp add: enqueue_def Let_def)

lemma enqueue_requests_made [simp]:
  "requests_made (enqueue f p s) = requests_made (s :: rate_limit)"
  by (simp add: enqueue_def Let_def)

lemma enqueue_requests_allowed [simp]:
  "requests_allowed (enqueue f p s) = requests_allowed (s :: rate_limit)"
  by (simp add: enqueue_def Let_def)

lemma enqueue_empty:
  assumes "head s = None"
  shows "enqueue f p s = s\<lparr>heap := heap s @ [\<lparr>fn = f, next = None\<rparr>],
           head := Some (length (heap s)), tail := Some (length (heap s)),
           priority_tail := (if p then Some (length (heap s)) else priority_tail s)\<rparr>"
  using assms by (simp add: enqueue_def Let_def)

lemma enqueue_priority_after:
  assumes "head s = Some h" "priority_tail s = Some pt"
  shows "enqueue f True s =
     s\<lparr>heap := (heap s @ [\<lparr>fn = f, next = next (heap s ! pt)\<rparr>])
                  [pt := (heap s ! pt)\<lparr>next := Some (length (heap s))\<rparr>],
       priority_tail := Some (length (heap s))\<rparr>"
  using assms by (simp add: enqueue_def Let_def)

lemma enqueue_priority_front:
  assumes "head s = Some h" "priority_tail s = None"
  shows "enqueue f True s =
     s\<lparr>heap := heap s @ [\<lparr>fn = f, next = head s\<rparr>],
       head := Some (length (heap s)), priority_tail := Some (length (heap s))\<rparr>"
  using assms by (simp add: enqueue_def Let_def)

lemma enqueue_normal:
  assumes "head s = Some h" "tail s = Some t"
  shows "enqueue f False s =
     s\<lparr>heap := (heap s @ [\<lparr>fn = f, next = None\<rparr>])
                  [t := (heap s ! t)\<lparr>next := Some (length (heap s))\<rparr>],
       tail := Some (length (heap s))\<rparr>"
  using assms by (simp add: enqueue_def Let_def)

section \<open>The loop of the burst variant\<close>

text \<open>
  An induction rule that follows the four ways through one round of the loop: the queue
  is empty, the task throws, the loop suspends, or it goes round again.
\<close>

lemma loop_induct [consumes 1, case_names release throw sleep again]:
  assumes "loop s = Some s'"
    and "\<And>s. head s = None \<Longrightarrow> P s (release s)"
    and "\<And>s a. head s = Some a \<Longrightarrow> throws (fn (heap s ! a)) \<Longrightarrow>
           P s (s\<lparr>requests_made := requests_made s + 1,
                  trace := trace s @ [Call (fn (heap s ! a))]\<rparr>)"
    and "\<And>s a. head s = Some a \<Longrightarrow> \<not> throws (fn (heap s ! a)) \<Longrightarrow>
           jsge (jsdiv (Fin (of_nat (requests_made s + 1))) (requests_allowed s))
                (Fin limit_after_percent) \<Longrightarrow>
           P s (s\<lparr>requests_made := requests_made s + 1,
                  trace := trace s @ [Call (fn (heap s ! a)), SetTimeout (delay_ms s)],
                  sleeping := sleeping s + 1\<rparr>)"
    and "\<And>s a s'. head s = Some a \<Longrightarrow> \<not> throws (fn (heap s ! a)) \<Longrightarrow>
           \<not> jsge (jsdiv (Fin (of_nat (requests_made s + 1))) (requests_allowed s))
                  (Fin limit_after_percent) \<Longrightarrow>
           P (s\<lparr>requests_made := requests_made s + 1,
                 trace := trace s @ [Call (fn (heap s ! a))],
                 head := next (heap s ! a)\<rparr>) s' \<Longrightarrow>
           P s s'"
  shows "P s s'"
proof (rule loop.raw_induct [where P = P, OF _ assms(1)], goal_cases)
  case (1 loop' s s')
  show ?case
  proof (cases "head s")
    case None
    with 1(2) have "s' = release s" by simp
    with None assms(2) show ?thesis by simp
  next
    case (Some a)
    let ?f = "fn (heap s ! a)"
    let ?s2 = "s\<lparr>requests_made := requests_made s + 1, trace := trace s @ [Call ?f]\<rparr>"
    let ?c = "jsge (jsdiv (Fin (of_nat (requests_made s + 1))) (requests_allowed s))
                (Fin limit_after_percent)"
    show ?thesis
    proof (cases "throws ?f")
      case True
      with 1(2) Some have "s' = ?s2" by (simp add: Let_def)
      with assms(3) [OF Some True] show ?thesis by simp
    next
      case False
      show ?thesis
      proof (cases ?c)
        case True
        with 1(2) Some False have "s' = s\<lparr>requests_made := requests_made s + 1,
                  trace := trace s @ [Call (fn (heap s ! a)), SetTimeout (delay_ms s)],
                  sleeping := sleeping s + 1\<rparr>"
          by (simp add: Let_def del: of_nat_Suc of_nat_add)
        with assms(4) [OF Some False True] show ?thesis by simp
      next
        case c: False
        with 1(2) Some False have "loop' (?s2\<lparr>head := next (heap s ! a)\<rparr>) = Some s'"
          by (simp add: Let_def del: of_nat_Suc of_nat_add)
        from 1(1) [OF this] have "P (s\<lparr>requests_made := requests_made s + 1,
                 trace := trace s @ [Call (fn (heap s ! a))],
                 head := next (heap s ! a)\<rparr>) s'" by simp
        from assms(5) [OF Some False c this] show ?thesis .
      qed
    qed
  qed
qed

lemma loop_keeps:
  assumes "loop s = Some s'"
  shows "heap s' = heap s \<and> delay_ms s' = delay_ms s \<and> requests_allowed s' = requests_allowed s"
  using assms by (induction rule: loop_induct) (simp_all add: release_def)

lemma loop_counts:
  assumes "loop s = Some s'"
  shows "filter is_interval (trace s') = filter is_interval (trace s)
       \<and> requests_made s \<le> requests_made s'"
  using assms by (induction rule: loop_induct) (simp_all add: release_def)

lemma loop_throws:
  assumes "head s = Some a" "throws (fn (heap s ! a))"
  shows "loop s = Some (s\<lparr>requests_made := requests_made s + 1,
                          trace := trace s @ [Call (fn (heap s ! a))]\<rparr>)"
  using assms by (subst loop.simps) (simp add: Let_def)

lemma loop_fixed_throws:
  assumes "head s = Some a" "throws (fn (heap s ! a))"
  shows "loop_fixed s = s\<lparr>trace := trace s @ [Call (fn (heap s ! a))]\<rparr>"
  using assms by (simp add: loop_fixed_def Let_def)

lemma loop_single:
  assumes "head s = Some a" "heap s ! a = \<lparr>fn = f, next = None\<rparr>"
  shows "\<exists>s'. loop s = Some s' \<and>
     trace s' = trace s @ Call f #
       (if \<not> throws f \<and> jsge (jsdiv (Fin (of_nat (requests_made s + 1))) (requests_allowed s))
                              (Fin limit_after_percent)
        then [SetTimeout (delay_ms s)] else [])"
  using assms
  apply (subst loop.simps)
  apply (simp add: Let_def)
  apply (subst loop.simps)
  apply (simp add: Let_def release_def)
  done

section \<open>Invariants of a limiter\<close>

text \<open>
  Pushes, timeouts and quota resets keep a limiter well formed, so every limiter reached
  from a constructor is: the model never reads outside the store.
\<close>

lemma wf_enqueue:
  assumes "well_formed s"
  shows "well_formed (enqueue f p s)"
proof -
  have lt: "a < Suc n \<longleftrightarrow> a < n \<or> a = n" for a n :: nat
    by auto
  consider (a) "head s = None"
    | (b) pt where "p" "head s \<noteq> None" "priority_tail s = Some pt"
    | (c) "p" "head s \<noteq> None" "priority_tail s = None"
    | (e) t where "\<not> p" "head s \<noteq> None" "tail s = Some t"
    using assms by (cases "priority_tail s"; cases "tail s"; auto simp: well_formed_def)
  then show ?thesis
  proof cases
    case a
    with assms show ?thesis
      by (auto simp: well_formed_def enqueue_empty nth_append lt)
  next
    case b
    with assms have "pt < length (heap s)" by (simp add: well_formed_def)
    with b assms show ?thesis
      by (auto simp: well_formed_def enqueue_priority_after nth_append nth_list_update lt
          split: if_splits)
  next
    case c
    with assms show ?thesis
      by (auto simp: well_formed_def enqueue_priority_front nth_append lt)
  next
    case e
    with assms have "t < length (heap s)" by (simp add: well_formed_def)
    with e assms show ?thesis
      by (auto simp: well_formed_def enqueue_normal nth_append nth_list_update lt
          split: if_splits)
  qed
qed

lemma wf_advance:
  assumes "well_formed s" "head s = Some a"
  shows "well_formed (s\<lparr>head := next (heap s ! a)\<rparr>)"
  using assms by (auto simp: well_formed_def)

lemma wf_release: "well_formed s \<Longrightarrow> well_formed (release s)"
  by (simp add: well_formed_def release_def)

lemma loop_wf:
  assumes "loop s = Some s'" "well_formed s"
  shows "well_formed s'"
  using assms
proof (induction rule: loop_induct)
  case (release s)
  then show ?case by (simp add: wf_release)
next
  case (throw s a)
  then show ?case by (simp add: well_formed_def)
next
  case (sleep s a)
  then show ?case by (simp add: well_formed_def)
next
  case (again s a s')
  from again(5) have "well_formed (s\<lparr>head := next (heap s ! a)\<rparr>)"
    using again(1) by (rule wf_advance)
  then have "well_formed (s\<lparr>requests_made := requests_made s + 1,
                 trace := trace s @ [Call (fn (heap s ! a))],
                 head := next (heap s ! a)\<rparr>)"
    by (simp add: well_formed_def)
  then show ?case by (rule again(4))
qed

lemma resume_wf:
  assumes "resume s = Some s'" "well_formed s"
  shows "well_formed s'"
proof (cases "sleeping s = 0")
  case True
  with assms show ?thesis by (simp add: resume_def)
next
  case False
  show ?thesis
  proof (cases "head s")
    case None
    with assms False show ?thesis by (auto simp: resume_def well_formed_def)
  next
    case (Some a)
    with assms(1) False have l: "loop (s\<lparr>sleeping := sleeping s - 1, head := next (heap s ! a)\<rparr>) = Some s'"
      by (simp add: resume_def)
    from wf_advance [OF assms(2) Some]
    have "well_formed (s\<lparr>sleeping := sleeping s - 1, head := next (heap s ! a)\<rparr>)"
      by (simp add: well_formed_def)
    with l show ?thesis by (rule loop_wf)
  qed
qed

lemma push_wf:
  assumes "push f p s = Some s'" "well_formed s"
  shows "well_formed s'"
proof (cases "is_running s")
  case True
  with assms wf_enqueue [OF assms(2), of f p] show ?thesis
    by (simp add: push_def)
next
  case False
  with assms(1) have "loop ((enqueue f p s)\<lparr>is_running := True\<rparr>) = Some s'"
    by (simp add: push_def run_def)
  moreover from wf_enqueue [OF assms(2), of f p] have "well_formed ((enqueue f p s)\<lparr>is_running := True\<rparr>)"
    by (simp add: well_formed_def)
  ultimately show ?thesis by (rule loop_wf)
qed

lemma step_wf:
  assumes "step e s = Some s'" "well_formed s"
  shows "well_formed s'"
proof (cases e)
  case (Push f p)
  with assms show ?thesis by (auto intro: push_wf)
next
  case Timeout
  with assms show ?thesis by (auto intro: resume_wf)
next
  case Interval
  with assms show ?thesis by (auto simp: reset_quota_def well_formed_def)
qed

lemma exec_wf:
  assumes "exec es s = Some s'" "well_formed s"
  shows "well_formed s'"
  using assms
proof (induction es arbitrary: s)
  case Nil
  then show ?case by simp
next
  case (Cons e es)
  from Cons.prems(1) obtain s1 where s1: "step e s = Some s1" "exec es s1 = Some s'"
    by (auto split: option.splits)
  from step_wf [OF s1(1) Cons.prems(2)] s1(2) show ?case
    by (rule Cons.IH [rotated])
qed

lemma constructor_wf: "constructor args = Inr s \<Longrightarrow> well_formed s"
  by (cases "parse_args args")
    (auto simp: constructor_eq well_formed_def split: option.splits)

lemma wf_fixed_loop: "well_formed s \<Longrightarrow> well_formed (loop_fixed s)"
  by (auto simp: loop_fixed_def well_formed_def release_def Let_def split: option.splits)

lemma wf_fixed_resume: "well_formed s \<Longrightarrow> well_formed (resume_fixed s)"
proof (cases "head s")
  case None
  then show "well_formed s \<Longrightarrow> well_formed (resume_fixed s)"
    by (auto simp: resume_fixed_def well_formed_def)
next
  case (Some a)
  assume w: "well_formed s"
  from wf_advance [OF w Some]
  have "well_formed (s\<lparr>sleeping := sleeping s - 1, head := next (heap s ! a)\<rparr>)"
    by (simp add: well_formed_def)
  then have "well_formed (loop_fixed (s\<lparr>sleeping := sleeping s - 1, head := next (heap s ! a)\<rparr>))"
    by (rule wf_fixed_loop)
  with Some w show "well_formed (resume_fixed s)"
    by (simp add: resume_fixed_def)
qed

lemma wf_fixed_push: "well_formed s \<Longrightarrow> well_formed (push_fixed f p s)"
proof -
  assume "well_formed s"
  then have w: "well_formed (enqueue f p s)" by (rule wf_enqueue)
  then have "well_formed ((enqueue f p s)\<lparr>is_running := True\<rparr>)" by (simp add: well_formed_def)
  then have "well_formed (run_fixed (enqueue f p s))"
    unfolding run_fixed_def by (rule wf_fixed_loop)
  with w show ?thesis by (simp add: push_fixed_def Let_def)
qed

lemma wf_fixed_exec: "well_formed s \<Longrightarrow> well_formed (exec_fixed es s)"
proof (induction es arbitrary: s)
  case Nil
  then show ?case by simp
next
  case (Cons e es)
  have "well_formed (step_fixed e s)"
    using Cons.prems by (cases e) (simp_all add: wf_fixed_push wf_fixed_resume)
  then show ?case by (simp add: Cons.IH)
qed

lemma constructor_fixed_wf: "constructor_fixed args = Inr s \<Longrightarrow> well_formed s"
  by (cases "parse_args args")
    (auto simp: constructor_fixed_eq well_formed_def fresh_def split: option.splits)

lemma reachable_well_formed:
  "constructor args = Inr b0 \<Longrightarrow> exec es b0 = Some b \<Longrightarrow> well_formed b"
  "constructor_fixed args = Inr s0 \<Longrightarrow> well_formed (exec_fixed es s0)"
  by (auto intro: exec_wf constructor_wf wf_fixed_exec constructor_fixed_wf)

text \<open>
  \<open>push\<close> calls \<open>run\<close> only when \<open>is_running\<close> is false, and \<open>run\<close> sets it before
  anything else: no second drain loop is ever started beside a suspended one.
\<close>

lemma enqueue_head: "head (enqueue f p s) \<noteq> None"
  by (simp add: enqueue_def Let_def)

lemma loop_steady:
  assumes "loop s = Some s'" "sleeping s = 0" "is_running s"
  shows "steady s'"
  using assms
  by (induction rule: loop_induct) (auto simp: release_def steady_def single_flight_def)

lemma step_steady:
  assumes "step e s = Some s'" "steady s"
  shows "steady s'"
proof (cases e)
  case (Push f p)
  show ?thesis
  proof (cases "is_running s")
    case True
    with Push assms enqueue_head [of f p s] show ?thesis
      by (auto simp: push_def steady_def single_flight_def)
  next
    case False
    with assms(2) have z: "sleeping s = 0" by (auto simp: steady_def single_flight_def)
    from False Push assms(1) have "loop ((enqueue f p s)\<lparr>is_running := True\<rparr>) = Some s'"
      by (simp add: push_def run_def)
    then show ?thesis by (rule loop_steady) (simp_all add: z)
  qed
next
  case Timeout
  show ?thesis
  proof (cases "sleeping s = 0")
    case True
    with Timeout assms show ?thesis by (simp add: resume_def)
  next
    case False
    with assms(2) have r: "sleeping s = 1" "is_running s" "head s \<noteq> None"
      by (auto simp: steady_def single_flight_def)
    then obtain a where a: "head s = Some a" by auto
    from False a Timeout assms(1)
    have "loop (s\<lparr>sleeping := sleeping s - 1, head := next (heap s ! a)\<rparr>) = Some s'"
      by (simp add: resume_def)
    then show ?thesis by (rule loop_steady) (simp_all add: r)
  qed
next
  case Interval
  with assms show ?thesis by (auto simp: reset_quota_def steady_def single_flight_def)
qed

lemma exec_steady:
  assumes "exec es s = Some s'" "steady s"
  shows "steady s'"
  using assms
proof (induction es arbitrary: s)
  case Nil
  then show ?case by simp
next
  case (Cons e es)
  from Cons.prems(1) obtain s1 where s1: "step e s = Some s1" "exec es s1 = Some s'"
    by (auto split: option.splits)
  from step_steady [OF s1(1) Cons.prems(2)] s1(2) show ?case
    by (rule Cons.IH [rotated])
qed

lemma constructor_steady: "constructor args = Inr s \<Longrightarrow> steady s"
  by (cases "parse_args args")
    (auto simp: constructor_eq steady_def single_flight_def split: option.splits)

lemma loop_fixed_steady:
  assumes "sleeping s = 0" "is_running s"
  shows "steady (loop_fixed s)"
  using assms
  by (auto simp: loop_fixed_def release_def steady_def single_flight_def Let_def
      split: option.splits)

lemma step_fixed_steady:
  assumes "steady s"
  shows "steady (step_fixed e s)"
proof (cases e)
  case (Push f p)
  show ?thesis
  proof (cases "is_running s")
    case True
    with Push assms enqueue_head [of f p s] show ?thesis
      by (auto simp: push_fixed_def steady_def single_flight_def)
  next
    case False
    with assms have z: "sleeping s = 0" by (auto simp: steady_def single_flight_def)
    have "steady (loop_fixed ((enqueue f p s)\<lparr>is_running := True\<rparr>))"
      by (rule loop_fixed_steady) (simp_all add: z)
    with False Push show ?thesis by (simp add: push_fixed_def run_fixed_def)
  qed
next
  case Timeout
  show ?thesis
  proof (cases "sleeping s = 0")
    case True
    with Timeout assms show ?thesis by (simp add: resume_fixed_def)
  next
    case False
    with assms have r: "sleeping s = 1" "is_running s" "head s \<noteq> None"
      by (auto simp: steady_def single_flight_def)
    then obtain a where a: "head s = Some a" by auto
    have "steady (loop_fixed (s\<lparr>sleeping := sleeping s - 1, head := next (heap s ! a)\<rparr>))"
      by (rule loop_fixed_steady) (simp_all add: r)
    with False a Timeout show ?thesis by (simp add: resume_fixed_def)
  qed
next
  case Interval
  with assms show ?thesis by simp
qed

lemma exec_fixed_steady: "steady s \<Longrightarrow> steady (exec_fixed es s)"
  by (induction es arbitrary: s) (simp_all add: step_fixed_steady)

lemma constructor_fixed_steady: "constructor_fixed args = Inr s \<Longrightarrow> steady s"
  by (cases "parse_args args")
    (auto simp: constructor_fixed_eq steady_def single_flight_def fresh_def split: option.splits)

lemma reachable_steady:
  "constructor args = Inr b0 \<Longrightarrow> exec es b0 = Some b \<Longrightarrow> steady b"
  "constructor_fixed args = Inr s0 \<Longrightarrow> steady (exec_fixed es s0)"
  by (auto intro: exec_steady constructor_steady exec_fixed_steady constructor_fixed_steady)

lemma single_flight_reachable:
  "constructor args = Inr b0 \<Longrightarrow> exec es b0 = Some b \<Longrightarrow> single_flight b"
  "constructor_fixed args = Inr s0 \<Longrightarrow> single_flight (exec_fixed es s0)"
  using reachable_steady by (auto simp: steady_def)

lemma push_starts_run:
  "push f p s = (if is_running s then Some (enqueue f p s) else run (enqueue f p s))"
  "push_fixed f p t = (if is_running t then enqueue f p t else run_fixed (enqueue f p t))"
  by (simp_all add: push_def push_fixed_def)

section \<open>The fixed delay and its timeline\<close>

lemma parse_2_per_second: "parse_args (Spec ''2 per second'') = (Fin 2, Some ''per second'')"
  by code_simp

lemma constructor_fixed_2_per_second:
  "constructor_fixed (Spec ''2 per second'') = Inr (fresh (Fin 500))"
  by code_simp

lemma constructor_2_per_second:
  "constructor (Spec ''2 per second'') =
     Inr \<lparr>delay_ms = Fin 1000, head = None, priority_tail = None, tail = None,
          is_running = False, heap = [], trace = [SetInterval 1000], sleeping = 0,
          requests_made = 0, requests_allowed = Fin 2\<rparr>"
  by code_simp

lemma three_pushes_timeline:
  assumes "\<not> throws f1" "\<not> throws f2" "\<not> throws f3"
  shows "\<exists>s. session_fixed (Spec ''2 per second'')
               [Push f1 False, Push f2 False, Push f3 False, Timeout, Timeout, Timeout] = Inr s
          \<and> trace s = [Call f1, SetTimeout (Fin 500), Call f2, SetTimeout (Fin 500),
                       Call f3, SetTimeout (Fin 500)]
          \<and> call_times 0 (trace s) = Some [(f1, 0), (f2, 500), (f3, 1000)]"
  using assms
  by (simp add: session_fixed_def constructor_fixed_2_per_second fresh_def push_fixed_def
      enqueue_def run_fixed_def loop_fixed_def resume_fixed_def release_def)

text \<open>
  C6, as stated, fails: the delay is not the exact quotient. For 3 per second the
  constructor stores the double nearest to 1000/3, which is
  \<open>5864062014805333 / 2^44\<close> (printed 333.3333333333333), not the rational 1000/3.
\<close>

theorem fixed_delay_exact_counterexample:
  "(\<exists>s. constructor_fixed (Rate (Fin 3) ''per second'') = Inr s \<and>
        delay_ms s = Fin (5864062014805333 / 2 ^ 44) \<and> delay_ms s \<noteq> Fin (1000 / 3))
   \<and> (\<exists>s. constructor_fixed (Spec ''3 per second'') = Inr s \<and>
        delay_ms s = Fin (5864062014805333 / 2 ^ 44) \<and> delay_ms s \<noteq> Fin (1000 / 3))"
proof -
  have "constructor_fixed (Rate (Fin 3) ''per second'') =
      Inr (fresh (Fin (5864062014805333 / 2 ^ 44)))"
    by code_simp
  moreover have "constructor_fixed (Spec ''3 per second'') =
      Inr (fresh (Fin (5864062014805333 / 2 ^ 44)))"
    by code_simp
  ultimately show ?thesis
    by (simp add: fresh_def)
qed

text \<open>
  C6, amended. In the fixed-delay variant, for a unit with duration \<open>ms\<close> and a finite
  count \<open>c\<close> above zero, the delay of the constructed limiter is what the operator \<open>/\<close>
  gives for \<open>ms\<close> and \<open>c\<close>: the quotient \<open>ms / c\<close> rounded to a double, never to an
  integer. When the quotient is in the range of the normal doubles the delay is finite,
  positive and within the relative error \<open>2^-53\<close> of the quotient; a finite delay is a
  double nearest to the quotient (no double is nearer); when the quotient is
  itself a double the delay is the quotient; when the quotient is \<open>2^1024\<close> or more the
  delay is Infinity. A \<open>2 per second\<close> limiter that gets three normal pushes of
  tasks that do not throw, before its first timer fires, calls the first task at once,
  the second after one delay of 500 ms and the third after two: at 0, 500 and 1000 ms
  when each timer fires exactly after its delay.
\<close>

theorem fixed_delay_rounded:
  assumes "parse_args args = (Fin c, i)" and "0 < c" and "interval_ms_of i = Some ms"
    and "\<not> throws f1" and "\<not> throws f2" and "\<not> throws f3"
  shows "(\<exists>s. constructor_fixed args = Inr s \<and> delay_ms s = jsdiv (Fin ms) (Fin c) \<and>
            (2 powi (- 1022) \<le> ms / c \<and> ms / c \<le> 2 powi 1023 \<longrightarrow>
               (\<exists>d. delay_ms s = Fin d \<and> 0 < d \<and> \<bar>d - ms / c\<bar> \<le> ms / c / 2 ^ 53)) \<and>
            (\<forall>d y. delay_ms s = Fin d \<and> is_double y \<longrightarrow> \<bar>d - ms / c\<bar> \<le> \<bar>y - ms / c\<bar>) \<and>
            (is_double (ms / c) \<longrightarrow> delay_ms s = Fin (ms / c)) \<and>
            (2 powi 1024 \<le> ms / c \<longrightarrow> delay_ms s = PInf))
       \<and> (\<exists>s. session_fixed (Spec ''2 per second'')
                 [Push f1 False, Push f2 False, Push f3 False, Timeout, Timeout, Timeout] = Inr s
            \<and> trace s = [Call f1, SetTimeout (Fin 500), Call f2, SetTimeout (Fin 500),
                         Call f3, SetTimeout (Fin 500)]
            \<and> call_times 0 (trace s) = Some [(f1, 0), (f2, 500), (f3, 1000)])"
proof
  have "ms \<noteq> 0"
    using interval_ms_of_pos [OF assms(3)] by simp
  then have d: "jsdiv (Fin ms) (Fin c) = to_double (ms / c)"
    using assms(2) by (simp add: jsdiv_finite)
  have near: "2 powi (- 1022) \<le> ms / c \<and> ms / c \<le> 2 powi 1023 \<longrightarrow>
      (\<exists>d. to_double (ms / c) = Fin d \<and> 0 < d \<and> \<bar>d - ms / c\<bar> \<le> ms / c / 2 ^ 53)"
    using to_double_error [of "ms / c"] by blast
  have quot: "0 < ms / c"
    using interval_ms_of_pos [OF assms(3)] assms(2) by simp
  have best: "\<forall>d y. to_double (ms / c) = Fin d \<and> is_double y \<longrightarrow>
      \<bar>d - ms / c\<bar> \<le> \<bar>y - ms / c\<bar>"
    using to_double_nearest [OF quot] by blast
  have same: "is_double (ms / c) \<longrightarrow> to_double (ms / c) = Fin (ms / c)"
    by (simp add: is_double_def)
  have over: "2 powi 1024 \<le> ms / c \<longrightarrow> to_double (ms / c) = PInf"
    using to_double_overflow [of "ms / c"] by blast
  have s: "delay_ms (fresh (to_double (ms / c))) = to_double (ms / c)"
    by (simp add: fresh_def)
  show "\<exists>s. constructor_fixed args = Inr s \<and> delay_ms s = jsdiv (Fin ms) (Fin c) \<and>
            (2 powi (- 1022) \<le> ms / c \<and> ms / c \<le> 2 powi 1023 \<longrightarrow>
               (\<exists>d. delay_ms s = Fin d \<and> 0 < d \<and> \<bar>d - ms / c\<bar> \<le> ms / c / 2 ^ 53)) \<and>
            (\<forall>d y. delay_ms s = Fin d \<and> is_double y \<longrightarrow> \<bar>d - ms / c\<bar> \<le> \<bar>y - ms / c\<bar>) \<and>
            (is_double (ms / c) \<longrightarrow> delay_ms s = Fin (ms / c)) \<and>
            (2 powi 1024 \<le> ms / c \<longrightarrow> delay_ms s = PInf)"
  proof (intro exI conjI)
    show "constructor_fixed args = Inr (fresh (to_double (ms / c)))"
      by (simp add: constructor_fixed_eq [OF assms(1)] assms(3) d)
    show "delay_ms (fresh (to_double (ms / c))) = jsdiv (Fin ms) (Fin c)"
      by (simp only: s d)
    show "2 powi (- 1022) \<le> ms / c \<and> ms / c \<le> 2 powi 1023 \<longrightarrow>
        (\<exists>d. delay_ms (fresh (to_double (ms / c))) = Fin d \<and> 0 < d \<and>
             \<bar>d - ms / c\<bar> \<le> ms / c / 2 ^ 53)"
      using near by (simp only: s)
    show "\<forall>d y. delay_ms (fresh (to_double (ms / c))) = Fin d \<and> is_double y \<longrightarrow>
        \<bar>d - ms / c\<bar> \<le> \<bar>y - ms / c\<bar>"
      using best by (simp only: s)
    show "is_double (ms / c) \<longrightarrow> delay_ms (fresh (to_double (ms / c))) = Fin (ms / c)"
      using same by (simp only: s)
    show "2 powi 1024 \<le> ms / c \<longrightarrow> delay_ms (fresh (to_double (ms / c))) = PInf"
      using over by (simp only: s)
  qed
next
  show "\<exists>s. session_fixed (Spec ''2 per second'')
               [Push f1 False, Push f2 False, Push f3 False, Timeout, Timeout, Timeout] = Inr s
          \<and> trace s = [Call f1, SetTimeout (Fin 500), Call f2, SetTimeout (Fin 500),
                       Call f3, SetTimeout (Fin 500)]
          \<and> call_times 0 (trace s) = Some [(f1, 0), (f2, 500), (f3, 1000)]"
    using assms(4-6) by (rule three_pushes_timeline)
qed

theorem fixed_delay_rounded_witness:
  "(\<exists>s d. constructor_fixed (Rate (Fin 3) ''per second'') = Inr s \<and> delay_ms s = Fin d \<and>
        0 < d \<and> \<bar>d - 1000 / 3\<bar> \<le> 1000 / 3 / 2 ^ 53 \<and>
        \<bar>d - 1000 / 3\<bar> \<le> \<bar>333 - 1000 / 3\<bar>)
   \<and> (\<exists>s. constructor_fixed (Spec ''2 per second'') = Inr s \<and> delay_ms s = Fin 500)
   \<and> (\<exists>s. constructor_fixed (Rate (Fin (1 / 2 ^ 1022)) ''per second'') = Inr s \<and>
        delay_ms s = PInf)
   \<and> (\<exists>s. session_fixed (Spec ''2 per second'')
             [Push (Task 1 False) False, Push (Task 2 False) False, Push (Task 3 False) False,
              Timeout, Timeout, Timeout] = Inr s
        \<and> call_times 0 (trace s) =
            Some [(Task 1 False, 0), (Task 2 False, 500), (Task 3 False, 1000)])"
proof -
  have u: "interval_ms_of (Some ''per second'') = Some 1000"
    by (simp add: interval_ms_of_def)
  have t: "\<not> throws (Task 1 False)" "\<not> throws (Task 2 False)" "\<not> throws (Task 3 False)"
    by simp_all
  have p3: "parse_args (Rate (Fin 3) ''per second'') = (Fin 3, Some ''per second'')"
    by (simp add: parse_args_def)
  have r3: "2 powi (- 1022) \<le> (1000 :: rat) / 3 \<and> (1000 :: rat) / 3 \<le> 2 powi 1023"
    by simp
  have c3: "(0::rat) < 3" by simp
  have y3: "is_double 333"
    by code_simp
  from fixed_delay_rounded [OF p3 c3 u t] r3 y3
  have a: "\<exists>s d. constructor_fixed (Rate (Fin 3) ''per second'') = Inr s \<and> delay_ms s = Fin d \<and>
        0 < d \<and> \<bar>d - 1000 / 3\<bar> \<le> 1000 / 3 / 2 ^ 53 \<and>
        \<bar>d - 1000 / 3\<bar> \<le> \<bar>333 - 1000 / 3\<bar>"
    by blast
  have c2: "(0::rat) < 2" by simp
  have d2: "is_double (1000 / 2)"
    by code_simp
  from fixed_delay_rounded [OF parse_2_per_second c2 u t] d2
  have b: "\<exists>s. constructor_fixed (Spec ''2 per second'') = Inr s \<and> delay_ms s = Fin (1000 / 2)"
    by blast
  have pt: "parse_args (Rate (Fin (1 / 2 ^ 1022)) ''per second'') =
      (Fin (1 / 2 ^ 1022), Some ''per second'')"
    by (simp only: parse_args_def ctor_args.case)
  have ct: "(0::rat) < 1 / 2 ^ 1022" by simp
  have ot: "2 powi 1024 \<le> (1000 :: rat) / (1 / 2 ^ 1022)"
    by simp
  from fixed_delay_rounded [OF pt ct u t] ot
  have c: "\<exists>s. constructor_fixed (Rate (Fin (1 / 2 ^ 1022)) ''per second'') = Inr s \<and>
        delay_ms s = PInf"
    by blast
  from fixed_delay_rounded [OF p3 c3 u t]
  have d: "\<exists>s. session_fixed (Spec ''2 per second'')
             [Push (Task 1 False) False, Push (Task 2 False) False, Push (Task 3 False) False,
              Timeout, Timeout, Timeout] = Inr s
        \<and> call_times 0 (trace s) =
            Some [(Task 1 False, 0), (Task 2 False, 500), (Task 3 False, 1000)]"
    by blast
  from a b c d show ?thesis
    by simp
qed

section \<open>Where the queue loses its order\<close>

text \<open>
  C1. The order "priority tasks in insertion order, then normal tasks in insertion
  order" does not survive every sequence of pushes and pops. On a \<open>2 per second\<close>
  limiter (both variants):

  \<^item> push A (normal), then push B (priority) while the loop is suspended after calling A:
    B is made the head in front of the node the loop stands on, so the loop's
    \<open>this.head = this.head.next\<close> steps from B back to A; A is called twice and B never.
  \<^item> push P1, P2 (priority), then N (normal): \<open>tail\<close> still points at P1, so linking N
    after it cuts P2 out of the chain; P2 is never called.
\<close>

theorem priority_order_lost:
  "session (Spec ''2 per second'')
     [Push (Task 1 False) False, Push (Task 2 False) True, Timeout, Timeout] =
   Inr (Some \<lparr>delay_ms = Fin 1000, head = None, priority_tail = None, tail = None,
     is_running = False,
     heap = [\<lparr>fn = Task 1 False, next = None\<rparr>, \<lparr>fn = Task 2 False, next = Some 0\<rparr>],
     trace = [SetInterval 1000, Call (Task 1 False), SetTimeout (Fin 1000),
              Call (Task 1 False), SetTimeout (Fin 1000)],
     sleeping = 0, requests_made = 2, requests_allowed = Fin 2\<rparr>)
   \<and> session_fixed (Spec ''2 per second'')
     [Push (Task 1 False) False, Push (Task 2 False) True, Timeout, Timeout] =
   Inr \<lparr>delay_ms = Fin 500, head = None, priority_tail = None, tail = None,
     is_running = False,
     heap = [\<lparr>fn = Task 1 False, next = None\<rparr>, \<lparr>fn = Task 2 False, next = Some 0\<rparr>],
     trace = [Call (Task 1 False), SetTimeout (Fin 500),
              Call (Task 1 False), SetTimeout (Fin 500)],
     sleeping = 0\<rparr>
   \<and> session (Spec ''2 per second'')
     [Push (Task 1 False) True, Push (Task 2 False) True, Push (Task 3 False) False,
      Timeout, Timeout] =
   Inr (Some \<lparr>delay_ms = Fin 1000, head = None, priority_tail = None, tail = None,
     is_running = False,
     heap = [\<lparr>fn = Task 1 False, next = Some 2\<rparr>, \<lparr>fn = Task 2 False, next = None\<rparr>,
             \<lparr>fn = Task 3 False, next = None\<rparr>],
     trace = [SetInterval 1000, Call (Task 1 False), SetTimeout (Fin 1000),
              Call (Task 3 False), SetTimeout (Fin 1000)],
     sleeping = 0, requests_made = 2, requests_allowed = Fin 2\<rparr>)"
  by code_simp

text \<open>
  C4. A push while the loop is draining starts no second loop, but the loop does not
  always reach the pushed node. On a \<open>2 per second\<close> limiter: push P1 and P2 (priority),
  let the timer fire so that the loop stands on P2, then push N (normal). \<open>tail\<close> still
  points at P1, which has been popped, so N is linked behind a node the loop has left;
  the next timer finds no successor of P2, the loop ends and the limiter is idle with N
  never called.
\<close>

theorem push_while_draining_lost:
  "session (Spec ''2 per second'')
     [Push (Task 1 False) True, Push (Task 2 False) True, Timeout,
      Push (Task 3 False) False, Timeout] =
   Inr (Some \<lparr>delay_ms = Fin 1000, head = None, priority_tail = None, tail = None,
     is_running = False,
     heap = [\<lparr>fn = Task 1 False, next = Some 2\<rparr>, \<lparr>fn = Task 2 False, next = None\<rparr>,
             \<lparr>fn = Task 3 False, next = None\<rparr>],
     trace = [SetInterval 1000, Call (Task 1 False), SetTimeout (Fin 1000),
              Call (Task 2 False), SetTimeout (Fin 1000)],
     sleeping = 0, requests_made = 2, requests_allowed = Fin 2\<rparr>)"
  by code_simp

section \<open>A task that throws\<close>

lemma step_fixed_stuck:
  assumes "is_running s" "sleeping s = 0"
  shows "is_running (step_fixed e s) \<and> sleeping (step_fixed e s) = 0 \<and>
         trace (step_fixed e s) = trace s"
  using assms by (cases e) (simp_all add: push_fixed_def resume_fixed_def)

lemma exec_fixed_stuck:
  assumes "is_running s" "sleeping s = 0"
  shows "is_running (exec_fixed es s) \<and> sleeping (exec_fixed es s) = 0 \<and>
         trace (exec_fixed es s) = trace s"
  using assms
proof (induction es arbitrary: s)
  case Nil
  then show ?case by simp
next
  case (Cons e es)
  from step_fixed_stuck [OF Cons.prems, of e] Cons.IH [of "step_fixed e s"]
  show ?case by simp
qed

lemma step_stuck:
  assumes "is_running s" "sleeping s = 0"
  shows "\<exists>s'. step e s = Some s' \<and> is_running s' \<and> sleeping s' = 0 \<and> trace s' = trace s"
  using assms by (cases e) (simp_all add: push_def resume_def reset_quota_def)

lemma exec_stuck:
  assumes "is_running s" "sleeping s = 0"
  shows "\<exists>s'. exec es s = Some s' \<and> is_running s' \<and> sleeping s' = 0 \<and> trace s' = trace s"
  using assms
proof (induction es arbitrary: s)
  case Nil
  then show ?case by simp
next
  case (Cons e es)
  from step_stuck [OF Cons.prems, of e] obtain s1 where
    s1: "step e s = Some s1" "is_running s1" "sleeping s1 = 0" "trace s1 = trace s"
    by blast
  from Cons.IH [OF s1(2,3)] s1 show ?case by simp
qed

text \<open>
  C3, as stated, fails: the loop does not go on to the next task after a task has
  thrown. On a \<open>2 per second\<close> limiter (both variants), push a task that throws, then a
  second task, and let timers fire: the trace is the one call that threw; the second
  task is never called, \<open>head\<close> still points at the first node and \<open>is_running\<close> is
  still true.
\<close>

theorem throwing_task_counterexample:
  "session_fixed (Spec ''2 per second'')
     [Push (Task 1 True) False, Push (Task 2 False) False, Timeout, Timeout] =
   Inr \<lparr>delay_ms = Fin 500, head = Some 0, priority_tail = None, tail = Some 1,
     is_running = True,
     heap = [\<lparr>fn = Task 1 True, next = Some 1\<rparr>, \<lparr>fn = Task 2 False, next = None\<rparr>],
     trace = [Call (Task 1 True)], sleeping = 0\<rparr>
   \<and> session (Spec ''2 per second'')
     [Push (Task 1 True) False, Push (Task 2 False) False, Timeout, Timeout] =
   Inr (Some \<lparr>delay_ms = Fin 1000, head = Some 0, priority_tail = None, tail = Some 1,
     is_running = True,
     heap = [\<lparr>fn = Task 1 True, next = Some 1\<rparr>, \<lparr>fn = Task 2 False, next = None\<rparr>],
     trace = [SetInterval 1000, Call (Task 1 True)], sleeping = 0,
     requests_made = 1, requests_allowed = Fin 2\<rparr>)"
  by code_simp

text \<open>
  C3, amended. The scheduler does not catch the exception of a task: the call rejects
  the promise of \<open>run\<close> and that invocation ends at once. When the drain loop (with no
  other invocation suspended) stands on a task that throws, it calls the task and stops
  there: \<open>head\<close> is not advanced and no timer is set. Whatever is pushed and whichever
  timers fire afterwards, no task is ever called again and \<open>is_running\<close> stays true.
  Both variants.
\<close>

theorem throwing_task_ends_drain:
  assumes "head s = Some a" and "throws (fn (heap s ! a))"
    and "is_running s" and "sleeping s = 0"
    and "head b = Some c" and "throws (fn (heap b ! c))"
    and "is_running b" and "sleeping b = 0"
  shows "loop_fixed s = s\<lparr>trace := trace s @ [Call (fn (heap s ! a))]\<rparr>
       \<and> (\<forall>es. trace (exec_fixed es (loop_fixed s)) = trace s @ [Call (fn (heap s ! a))]
            \<and> is_running (exec_fixed es (loop_fixed s)))
       \<and> loop b = Some (b\<lparr>requests_made := requests_made b + 1,
                           trace := trace b @ [Call (fn (heap b ! c))]\<rparr>)
       \<and> (\<forall>es. \<exists>b'. exec es (b\<lparr>requests_made := requests_made b + 1,
                                  trace := trace b @ [Call (fn (heap b ! c))]\<rparr>) = Some b'
            \<and> trace b' = trace b @ [Call (fn (heap b ! c))] \<and> is_running b')"
proof (intro conjI)
  let ?s1 = "s\<lparr>trace := trace s @ [Call (fn (heap s ! a))]\<rparr>"
  show l: "loop_fixed s = ?s1"
    using assms(1,2) by (rule loop_fixed_throws)
  have "is_running ?s1" "sleeping ?s1 = 0"
    using assms(3,4) by simp_all
  from exec_fixed_stuck [OF this]
  show "\<forall>es. trace (exec_fixed es (loop_fixed s)) = trace s @ [Call (fn (heap s ! a))]
            \<and> is_running (exec_fixed es (loop_fixed s))"
    by (simp add: l)
next
  let ?b1 = "b\<lparr>requests_made := requests_made b + 1,
                 trace := trace b @ [Call (fn (heap b ! c))]\<rparr>"
  show "loop b = Some ?b1"
    using assms(5,6) by (rule loop_throws)
  have "is_running ?b1" "sleeping ?b1 = 0"
    using assms(7,8) by simp_all
  from exec_stuck [OF this]
  show "\<forall>es. \<exists>b'. exec es ?b1 = Some b' \<and>
      trace b' = trace b @ [Call (fn (heap b ! c))] \<and> is_running b'"
    by fastforce
qed

theorem throwing_task_ends_drain_witness:
  "trace (exec_fixed [Push (Task 3 False) False, Timeout]
     (loop_fixed \<lparr>delay_ms = Fin 500, head = Some 0, priority_tail = None, tail = Some 1,
        is_running = True,
        heap = [\<lparr>fn = Task 1 True, next = Some 1\<rparr>, \<lparr>fn = Task 2 False, next = None\<rparr>],
        trace = [], sleeping = 0\<rparr>)) = [Call (Task 1 True)]
   \<and> (\<exists>b'. exec [Push (Task 3 False) False, Timeout]
        \<lparr>delay_ms = Fin 1000, head = Some 0, priority_tail = None, tail = Some 1,
         is_running = True,
         heap = [\<lparr>fn = Task 1 True, next = Some 1\<rparr>, \<lparr>fn = Task 2 False, next = None\<rparr>],
         trace = [SetInterval 1000, Call (Task 1 True)], sleeping = 0,
         requests_made = 1, requests_allowed = Fin 2\<rparr> = Some b'
      \<and> trace b' = [SetInterval 1000, Call (Task 1 True)] \<and> is_running b')"
proof -
  let ?s = "\<lparr>delay_ms = Fin 500, head = Some 0, priority_tail = None, tail = Some 1,
        is_running = True,
        heap = [\<lparr>fn = Task 1 True, next = Some 1\<rparr>, \<lparr>fn = Task 2 False, next = None\<rparr>],
        trace = [], sleeping = 0\<rparr>"
  let ?b = "\<lparr>delay_ms = Fin 1000, head = Some 0, priority_tail = None, tail = Some 1,
        is_running = True,
        heap = [\<lparr>fn = Task 1 True, next = Some 1\<rparr>, \<lparr>fn = Task 2 False, next = None\<rparr>],
        trace = [SetInterval 1000], sleeping = 0,
        requests_made = 0, requests_allowed = Fin 2\<rparr>"
  have s: "head ?s = Some 0" "throws (fn (heap ?s ! 0))" "is_running ?s" "sleeping ?s = 0"
    by simp_all
  have b: "head ?b = Some 0" "throws (fn (heap ?b ! 0))" "is_running ?b" "sleeping ?b = 0"
    by simp_all
  note w = throwing_task_ends_drain [OF s b]
  from w have "trace (exec_fixed [Push (Task 3 False) False, Timeout] (loop_fixed ?s)) =
      trace ?s @ [Call (fn (heap ?s ! 0))]"
    by blast
  moreover from w have "\<exists>b'. exec [Push (Task 3 False) False, Timeout]
      (?b\<lparr>requests_made := requests_made ?b + 1,
           trace := trace ?b @ [Call (fn (heap ?b ! 0))]\<rparr>) = Some b'
      \<and> trace b' = trace ?b @ [Call (fn (heap ?b ! 0))] \<and> is_running b'"
    by blast
  ultimately show ?thesis
    by simp
qed

section \<open>What a push does before it returns\<close>

text \<open>
  C9, as stated, fails: \<open>push\<close> on an idle limiter calls the pushed task before it
  returns, because the call of the \<open>async\<close> function \<open>run\<close> executes its body up to the
  first \<open>await\<close>. A \<open>60 per minute\<close> burst limiter and a fixed-delay limiter, both just
  constructed, have the call of the task in their trace when \<open>push\<close> returns.
\<close>

theorem push_invokes_task_counterexample:
  "push (Task 1 False) False
     \<lparr>delay_ms = Fin 2000, head = None, priority_tail = None, tail = None,
      is_running = False, heap = [], trace = [SetInterval 60000], sleeping = 0,
      requests_made = 0, requests_allowed = Fin 60\<rparr> =
   Some \<lparr>delay_ms = Fin 2000, head = None, priority_tail = None, tail = None,
      is_running = False, heap = [\<lparr>fn = Task 1 False, next = None\<rparr>],
      trace = [SetInterval 60000, Call (Task 1 False)], sleeping = 0,
      requests_made = 1, requests_allowed = Fin 60\<rparr>
   \<and> push_fixed (Task 1 False) False
     \<lparr>delay_ms = Fin 1000, head = None, priority_tail = None, tail = None,
      is_running = False, heap = [], trace = [], sleeping = 0\<rparr> =
   \<lparr>delay_ms = Fin 1000, head = Some 0, priority_tail = None, tail = Some 0,
      is_running = True, heap = [\<lparr>fn = Task 1 False, next = None\<rparr>],
      trace = [Call (Task 1 False), SetTimeout (Fin 1000)], sleeping = 1\<rparr>"
  by code_simp

text \<open>
  C9, amended. In every state that a limiter reaches, \<open>push\<close> returns the limiter
  (it is the model's result, so pushes chain) and never waits for a timer. On a limiter
  that is draining (\<open>is_running\<close> true) it only links the node: no task is called and
  no timer is set. On an idle limiter it starts the drain loop, which calls the pushed
  task before \<open>push\<close> returns; the fixed variant then sets its timer unless the task
  threw, the burst variant sets it only once the quota ratio has reached
  \<open>limit_after_percent\<close>.
\<close>

theorem push_returns:
  assumes "constructor args = Inr b0" and "exec es b0 = Some b"
    and "constructor_fixed args' = Inr s0" and "s = exec_fixed es' s0"
  shows "(\<exists>b'. push f p b = Some b'
           \<and> (is_running b \<longrightarrow>
                 b' = enqueue f p b \<and> trace b' = trace b \<and> sleeping b' = sleeping b)
           \<and> (\<not> is_running b \<longrightarrow>
                 trace b' = trace b @ Call f #
                   (if \<not> throws f \<and>
                       jsge (jsdiv (Fin (of_nat (requests_made b + 1))) (requests_allowed b))
                            (Fin limit_after_percent)
                    then [SetTimeout (delay_ms b)] else [])))
       \<and> (is_running s \<longrightarrow>
             push_fixed f p s = enqueue f p s \<and> trace (push_fixed f p s) = trace s \<and>
             sleeping (push_fixed f p s) = sleeping s)
       \<and> (\<not> is_running s \<longrightarrow>
             trace (push_fixed f p s) =
               trace s @ Call f # (if throws f then [] else [SetTimeout (delay_ms s)]))"
proof (intro conjI impI)
  have sb: "steady b"
    using assms(1,2) by (rule reachable_steady)
  show "\<exists>b'. push f p b = Some b'
           \<and> (is_running b \<longrightarrow>
                 b' = enqueue f p b \<and> trace b' = trace b \<and> sleeping b' = sleeping b)
           \<and> (\<not> is_running b \<longrightarrow>
                 trace b' = trace b @ Call f #
                   (if \<not> throws f \<and>
                       jsge (jsdiv (Fin (of_nat (requests_made b + 1))) (requests_allowed b))
                            (Fin limit_after_percent)
                    then [SetTimeout (delay_ms b)] else []))"
  proof (cases "is_running b")
    case True
    then show ?thesis by (simp add: push_def)
  next
    case False
    with sb have e: "head b = None" by (simp add: steady_def)
    let ?b1 = "(enqueue f p b)\<lparr>is_running := True\<rparr>"
    have "head ?b1 = Some (length (heap b))"
      "heap ?b1 ! length (heap b) = \<lparr>fn = f, next = None\<rparr>"
      using e by (simp_all add: enqueue_empty)
    from loop_single [OF this] obtain b' where
      "loop ?b1 = Some b'"
      "trace b' = trace ?b1 @ Call f #
         (if \<not> throws f \<and>
             jsge (jsdiv (Fin (of_nat (requests_made ?b1 + 1))) (requests_allowed ?b1))
                  (Fin limit_after_percent)
          then [SetTimeout (delay_ms ?b1)] else [])"
      by blast
    with False show ?thesis by (simp add: push_def run_def)
  qed
next
  assume "is_running s"
  then show "push_fixed f p s = enqueue f p s" "trace (push_fixed f p s) = trace s"
    "sleeping (push_fixed f p s) = sleeping s"
    by (simp_all add: push_fixed_def)
next
  assume idle: "\<not> is_running s"
  have "steady s"
    unfolding assms(4) using assms(3) by (rule reachable_steady)
  with idle have "head s = None" by (simp add: steady_def)
  with idle show "trace (push_fixed f p s) =
      trace s @ Call f # (if throws f then [] else [SetTimeout (delay_ms s)])"
    by (simp add: push_fixed_def enqueue_empty run_fixed_def loop_fixed_def)
qed

lemma exec_push_2_per_second:
  "exec [Push (Task 1 False) False]
     \<lparr>delay_ms = Fin 1000, head = None, priority_tail = None, tail = None,
      is_running = False, heap = [], trace = [SetInterval 1000], sleeping = 0,
      requests_made = 0, requests_allowed = Fin 2\<rparr> =
   Some \<lparr>delay_ms = Fin 1000, head = Some 0, priority_tail = None, tail = Some 0,
      is_running = True, heap = [\<lparr>fn = Task 1 False, next = None\<rparr>],
      trace = [SetInterval 1000, Call (Task 1 False), SetTimeout (Fin 1000)], sleeping = 1,
      requests_made = 1, requests_allowed = Fin 2\<rparr>"
  by code_simp

lemma exec_fixed_push_2_per_second:
  "\<lparr>delay_ms = Fin 500, head = Some 0, priority_tail = None, tail = Some 0,
      is_running = True, heap = [\<lparr>fn = Task 1 False, next = None\<rparr>],
      trace = [Call (Task 1 False), SetTimeout (Fin 500)], sleeping = 1\<rparr> =
   exec_fixed [Push (Task 1 False) False] (fresh (Fin 500))"
  by code_simp

theorem push_returns_witness:
  "(\<exists>b'. push (Task 1 False) False
        \<lparr>delay_ms = Fin 1000, head = None, priority_tail = None, tail = None,
         is_running = False, heap = [], trace = [SetInterval 1000], sleeping = 0,
         requests_made = 0, requests_allowed = Fin 2\<rparr> = Some b'
      \<and> trace b' = [SetInterval 1000, Call (Task 1 False), SetTimeout (Fin 1000)])
   \<and> trace (push_fixed (Task 1 False) False (fresh (Fin 500))) =
       [Call (Task 1 False), SetTimeout (Fin 500)]
   \<and> push (Task 2 False) True
        \<lparr>delay_ms = Fin 1000, head = Some 0, priority_tail = None, tail = Some 0,
         is_running = True, heap = [\<lparr>fn = Task 1 False, next = None\<rparr>],
         trace = [SetInterval 1000, Call (Task 1 False), SetTimeout (Fin 1000)], sleeping = 1,
         requests_made = 1, requests_allowed = Fin 2\<rparr> =
      Some (enqueue (Task 2 False) True
        \<lparr>delay_ms = Fin 1000, head = Some 0, priority_tail = None, tail = Some 0,
         is_running = True, heap = [\<lparr>fn = Task 1 False, next = None\<rparr>],
         trace = [SetInterval 1000, Call (Task 1 False), SetTimeout (Fin 1000)], sleeping = 1,
         requests_made = 1, requests_allowed = Fin 2\<rparr>)
   \<and> push_fixed (Task 2 False) True
        \<lparr>delay_ms = Fin 500, head = Some 0, priority_tail = None, tail = Some 0,
         is_running = True, heap = [\<lparr>fn = Task 1 False, next = None\<rparr>],
         trace = [Call (Task 1 False), SetTimeout (Fin 500)], sleeping = 1\<rparr> =
      enqueue (Task 2 False) True
        \<lparr>delay_ms = Fin 500, head = Some 0, priority_tail = None, tail = Some 0,
         is_running = True, heap = [\<lparr>fn = Task 1 False, next = None\<rparr>],
         trace = [Call (Task 1 False), SetTimeout (Fin 500)], sleeping = 1\<rparr>"
proof -
  let ?init = "\<lparr>delay_ms = Fin 1000, head = None, priority_tail = None, tail = None,
         is_running = False, heap = [], trace = [SetInterval 1000], sleeping = 0,
         requests_made = 0, requests_allowed = Fin 2\<rparr>"
  let ?busy = "\<lparr>delay_ms = Fin 1000, head = Some 0, priority_tail = None, tail = Some 0,
         is_running = True, heap = [\<lparr>fn = Task 1 False, next = None\<rparr>],
         trace = [SetInterval 1000, Call (Task 1 False), SetTimeout (Fin 1000)], sleeping = 1,
         requests_made = 1, requests_allowed = Fin 2\<rparr>"
  let ?busy_fixed = "\<lparr>delay_ms = Fin 500, head = Some 0, priority_tail = None, tail = Some 0,
         is_running = True, heap = [\<lparr>fn = Task 1 False, next = None\<rparr>],
         trace = [Call (Task 1 False), SetTimeout (Fin 500)], sleeping = 1\<rparr>"
  have e0: "exec [] ?init = Some ?init" "fresh (Fin 500) = exec_fixed [] (fresh (Fin 500))"
    by simp_all
  have throttle: "jsge (jsdiv (Fin (of_nat (requests_made ?init + 1))) (requests_allowed ?init))
      (Fin limit_after_percent)"
    by code_simp
  note idle = push_returns [OF constructor_2_per_second e0(1) constructor_fixed_2_per_second e0(2),
      of "Task 1 False" False]
  have i: "\<not> is_running ?init" "\<not> is_running (fresh (Fin 500))"
    by (simp_all add: fresh_def)
  from idle i(1) throttle
  have a: "\<exists>b'. push (Task 1 False) False ?init = Some b' \<and>
      trace b' = [SetInterval 1000, Call (Task 1 False), SetTimeout (Fin 1000)]"
    by auto
  from idle i(2)
  have b: "trace (push_fixed (Task 1 False) False (fresh (Fin 500))) =
      [Call (Task 1 False), SetTimeout (Fin 500)]"
    by (simp add: fresh_def)
  note busy = push_returns [OF constructor_2_per_second exec_push_2_per_second
      constructor_fixed_2_per_second exec_fixed_push_2_per_second, of "Task 2 False" True]
  have r: "is_running ?busy" "is_running ?busy_fixed"
    by simp_all
  from busy r(1)
  have c: "push (Task 2 False) True ?busy = Some (enqueue (Task 2 False) True ?busy)"
    by auto
  from busy r(2)
  have d: "push_fixed (Task 2 False) True ?busy_fixed = enqueue (Task 2 False) True ?busy_fixed"
    by blast
  from a b c d show ?thesis
    by blast
qed

section \<open>Draining the last node\<close>

lemma resume_last:
  assumes "0 < sleeping b" "head b = Some a" "next (heap b ! a) = None"
  shows "resume b = Some (release (b\<lparr>sleeping := sleeping b - 1, head := None\<rparr>))"
  using assms by (simp add: resume_def loop.simps)

lemma resume_fixed_last:
  assumes "0 < sleeping s" "head s = Some a" "next (heap s ! a) = None"
  shows "resume_fixed s = release (s\<lparr>sleeping := sleeping s - 1, head := None\<rparr>)"
  using assms by (simp add: resume_fixed_def loop_fixed_def)

lemma enqueue_fresh_chain:
  assumes "head s = None" "tail s = None" "priority_tail s = None"
  shows "heap (enqueue f p s) = heap s @ [\<lparr>fn = f, next = None\<rparr>]
       \<and> head (enqueue f p s) = Some (length (heap s))
       \<and> tail (enqueue f p s) = Some (length (heap s))
       \<and> priority_tail (enqueue f p s) = (if p then Some (length (heap s)) else None)
       \<and> path (heap (enqueue f p s)) (head (enqueue f p s)) [length (heap s)]"
  using assms by (simp add: enqueue_empty)

text \<open>
  C7. In every state that a limiter reaches, of either variant: an empty queue means
  that \<open>head\<close>, \<open>tail\<close> and \<open>priority_tail\<close> are all unset and \<open>is_running\<close> is false.
  When the timer of the suspended loop fires and the node at \<open>head\<close> has no successor,
  the loop ends in such a state. A push onto an empty queue allocates one node without
  successor, leaves every older node as it was, makes the new node \<open>head\<close> and \<open>tail\<close>
  (and \<open>priority_tail\<close> for a priority push), so that the chain from \<open>head\<close> is that
  single node, and starts \<open>run\<close> again.
\<close>

theorem drain_releases_cursors:
  assumes "constructor args = Inr b0" and "exec es b0 = Some b"
    and "constructor_fixed args' = Inr s0" and "s = exec_fixed es' s0"
  shows "(head b = None \<longrightarrow> tail b = None \<and> priority_tail b = None \<and> \<not> is_running b)
       \<and> (head s = None \<longrightarrow> tail s = None \<and> priority_tail s = None \<and> \<not> is_running s)
       \<and> (\<forall>a. 0 < sleeping b \<and> head b = Some a \<and> next (heap b ! a) = None \<longrightarrow>
             (\<exists>b'. resume b = Some b' \<and> head b' = None \<and> tail b' = None \<and>
                priority_tail b' = None \<and> \<not> is_running b'))
       \<and> (\<forall>a. 0 < sleeping s \<and> head s = Some a \<and> next (heap s ! a) = None \<longrightarrow>
             head (resume_fixed s) = None \<and> tail (resume_fixed s) = None \<and>
             priority_tail (resume_fixed s) = None \<and> \<not> is_running (resume_fixed s))
       \<and> (head b = None \<longrightarrow>
             heap (enqueue f p b) = heap b @ [\<lparr>fn = f, next = None\<rparr>]
           \<and> head (enqueue f p b) = Some (length (heap b))
           \<and> tail (enqueue f p b) = Some (length (heap b))
           \<and> priority_tail (enqueue f p b) = (if p then Some (length (heap b)) else None)
           \<and> path (heap (enqueue f p b)) (head (enqueue f p b)) [length (heap b)]
           \<and> push f p b = run (enqueue f p b))
       \<and> (head s = None \<longrightarrow>
             heap (enqueue f p s) = heap s @ [\<lparr>fn = f, next = None\<rparr>]
           \<and> head (enqueue f p s) = Some (length (heap s))
           \<and> tail (enqueue f p s) = Some (length (heap s))
           \<and> priority_tail (enqueue f p s) = (if p then Some (length (heap s)) else None)
           \<and> path (heap (enqueue f p s)) (head (enqueue f p s)) [length (heap s)]
           \<and> push_fixed f p s = run_fixed (enqueue f p s))"
proof -
  have sb: "steady b"
    using assms(1,2) by (rule reachable_steady)
  have ss: "steady s"
    unfolding assms(4) using assms(3) by (rule reachable_steady)
  have eb: "head b = None \<longrightarrow> tail b = None \<and> priority_tail b = None \<and> \<not> is_running b"
    using sb by (simp add: steady_def)
  have es: "head s = None \<longrightarrow> tail s = None \<and> priority_tail s = None \<and> \<not> is_running s"
    using ss by (simp add: steady_def)
  have rb: "\<forall>a. 0 < sleeping b \<and> head b = Some a \<and> next (heap b ! a) = None \<longrightarrow>
             (\<exists>b'. resume b = Some b' \<and> head b' = None \<and> tail b' = None \<and>
                priority_tail b' = None \<and> \<not> is_running b')"
    by (auto simp: resume_last release_def)
  have rs: "\<forall>a. 0 < sleeping s \<and> head s = Some a \<and> next (heap s ! a) = None \<longrightarrow>
             head (resume_fixed s) = None \<and> tail (resume_fixed s) = None \<and>
             priority_tail (resume_fixed s) = None \<and> \<not> is_running (resume_fixed s)"
    by (auto simp: resume_fixed_last release_def)
  have pb: "head b = None \<longrightarrow>
             heap (enqueue f p b) = heap b @ [\<lparr>fn = f, next = None\<rparr>]
           \<and> head (enqueue f p b) = Some (length (heap b))
           \<and> tail (enqueue f p b) = Some (length (heap b))
           \<and> priority_tail (enqueue f p b) = (if p then Some (length (heap b)) else None)
           \<and> path (heap (enqueue f p b)) (head (enqueue f p b)) [length (heap b)]
           \<and> push f p b = run (enqueue f p b)"
    using eb enqueue_fresh_chain [of b f p] by (simp add: push_def)
  have ps: "head s = None \<longrightarrow>
             heap (enqueue f p s) = heap s @ [\<lparr>fn = f, next = None\<rparr>]
           \<and> head (enqueue f p s) = Some (length (heap s))
           \<and> tail (enqueue f p s) = Some (length (heap s))
           \<and> priority_tail (enqueue f p s) = (if p then Some (length (heap s)) else None)
           \<and> path (heap (enqueue f p s)) (head (enqueue f p s)) [length (heap s)]
           \<and> push_fixed f p s = run_fixed (enqueue f p s)"
    using es enqueue_fresh_chain [of s f p] by (simp add: push_fixed_def)
  from eb es rb rs pb ps show ?thesis
    by blast
qed

theorem drain_releases_cursors_witness:
  "(\<exists>b'. resume
        \<lparr>delay_ms = Fin 1000, head = Some 0, priority_tail = None, tail = Some 0,
         is_running = True, heap = [\<lparr>fn = Task 1 False, next = None\<rparr>],
         trace = [SetInterval 1000, Call (Task 1 False), SetTimeout (Fin 1000)], sleeping = 1,
         requests_made = 1, requests_allowed = Fin 2\<rparr> = Some b'
      \<and> head b' = None \<and> tail b' = None \<and> priority_tail b' = None \<and> \<not> is_running b')
   \<and> head (resume_fixed
        \<lparr>delay_ms = Fin 500, head = Some 0, priority_tail = None, tail = Some 0,
         is_running = True, heap = [\<lparr>fn = Task 1 False, next = None\<rparr>],
         trace = [Call (Task 1 False), SetTimeout (Fin 500)], sleeping = 1\<rparr>) = None
   \<and> \<not> is_running (resume_fixed
        \<lparr>delay_ms = Fin 500, head = Some 0, priority_tail = None, tail = Some 0,
         is_running = True, heap = [\<lparr>fn = Task 1 False, next = None\<rparr>],
         trace = [Call (Task 1 False), SetTimeout (Fin 500)], sleeping = 1\<rparr>)
   \<and> head (enqueue (Task 2 False) True
        \<lparr>delay_ms = Fin 1000, head = None, priority_tail = None, tail = None,
         is_running = False, heap = [], trace = [SetInterval 1000], sleeping = 0,
         requests_made = 0, requests_allowed = Fin 2\<rparr>) = Some 0
   \<and> heap (enqueue (Task 2 False) True (fresh (Fin 500))) = [\<lparr>fn = Task 2 False, next = None\<rparr>]"
proof -
  let ?init = "\<lparr>delay_ms = Fin 1000, head = None, priority_tail = None, tail = None,
         is_running = False, heap = [], trace = [SetInterval 1000], sleeping = 0,
         requests_made = 0, requests_allowed = Fin 2\<rparr>"
  let ?busy = "\<lparr>delay_ms = Fin 1000, head = Some 0, priority_tail = None, tail = Some 0,
         is_running = True, heap = [\<lparr>fn = Task 1 False, next = None\<rparr>],
         trace = [SetInterval 1000, Call (Task 1 False), SetTimeout (Fin 1000)], sleeping = 1,
         requests_made = 1, requests_allowed = Fin 2\<rparr>"
  let ?busy_fixed = "\<lparr>delay_ms = Fin 500, head = Some 0, priority_tail = None, tail = Some 0,
         is_running = True, heap = [\<lparr>fn = Task 1 False, next = None\<rparr>],
         trace = [Call (Task 1 False), SetTimeout (Fin 500)], sleeping = 1\<rparr>"
  have e0: "exec [] ?init = Some ?init" "fresh (Fin 500) = exec_fixed [] (fresh (Fin 500))"
    by simp_all
  note busy = drain_releases_cursors [OF constructor_2_per_second exec_push_2_per_second
      constructor_fixed_2_per_second exec_fixed_push_2_per_second, of "Task 2 False" True]
  have l: "0 < sleeping ?busy \<and> head ?busy = Some 0 \<and> next (heap ?busy ! 0) = None"
    "0 < sleeping ?busy_fixed \<and> head ?busy_fixed = Some 0 \<and> next (heap ?busy_fixed ! 0) = None"
    by simp_all
  from busy l(1)
  have a: "\<exists>b'. resume ?busy = Some b' \<and> head b' = None \<and> tail b' = None \<and>
      priority_tail b' = None \<and> \<not> is_running b'"
    by blast
  from busy l(2)
  have b: "head (resume_fixed ?busy_fixed) = None" "\<not> is_running (resume_fixed ?busy_fixed)"
    by blast+
  note idle = drain_releases_cursors [OF constructor_2_per_second e0(1)
      constructor_fixed_2_per_second e0(2), of "Task 2 False" True]
  have h: "head ?init = None" "head (fresh (Fin 500)) = None"
    by (simp_all add: fresh_def)
  from idle h(1)
  have c: "head (enqueue (Task 2 False) True ?init) = Some (length (heap ?init))"
    by blast
  from idle h(2)
  have d: "heap (enqueue (Task 2 False) True (fresh (Fin 500))) =
      heap (fresh (Fin 500)) @ [\<lparr>fn = Task 2 False, next = None\<rparr>]"
    by blast
  from a b c d show ?thesis
    by (simp add: fresh_def)
qed

section \<open>Burst, then throttle\<close>

text \<open>
  The test \<open>requests_made / requests_allowed >= limit_after_percent\<close> is made on the
  rounded quotient. For a count in range it decides as the exact quotient does: a
  quotient below one half lies at least \<open>2^-54\<close> below it, since the count exceeds twice
  the number of requests by at least one unit of its last place.
\<close>

lemma below_half:
  assumes "0 < q" "q \<le> 2 ^ 53" "is_double q" "2 * rat_of_nat m < q"
  shows "rat_of_nat m / q \<le> 1 / 2 - 2 powi (- 54)"
proof -
  define e where "e = min (ilog2 q) 52"
  let ?v = "(2::rat) powi (e - 52)"
  note b = ilog2_bounds [OF assms(1)]
  have vpos: "0 < ?v" by (rule powi_pos)
  have "e \<le> max (ilog2 \<bar>q\<bar>) (- 1022)"
    using assms(1) by (simp add: e_def)
  from double_grid [OF assms(3) this] obtain j where j: "q = of_int j * ?v"
    by blast
  have one: "(1::rat) = of_int (2 ^ nat (52 - e)) * ?v"
  proof -
    have "(2::rat) powi (52 - e + (e - 52)) = 2 powi (52 - e) * ?v"
      by (rule power_int_add) simp
    moreover have "(2::rat) powi (52 - e) = 2 ^ nat (52 - e)"
      by (simp add: power_int_nonneg_exp e_def)
    ultimately show ?thesis by simp
  qed
  have "2 * rat_of_nat m = of_int (2 * int m) * 1"
    by simp
  also have "\<dots> = of_int (2 * int m) * (of_int (2 ^ nat (52 - e)) * ?v)"
    by (simp only: one [symmetric])
  also have "\<dots> = of_int (2 * int m * 2 ^ nat (52 - e)) * ?v"
    by (simp add: mult.assoc)
  finally have m: "2 * rat_of_nat m = of_int (2 * int m * 2 ^ nat (52 - e)) * ?v" .
  let ?i = "j - 2 * int m * 2 ^ nat (52 - e)"
  have diff: "q - 2 * rat_of_nat m = of_int ?i * ?v"
    by (simp only: m j of_int_diff left_diff_distrib)
  with assms(4) have "0 < of_int ?i * ?v"
    by simp
  then have "0 < rat_of_int ?i"
    using vpos by (simp add: zero_less_mult_iff)
  then have "0 < ?i"
    by (simp only: of_int_0_less_iff)
  then have "1 \<le> ?i"
    by simp
  then have "rat_of_int 1 \<le> of_int ?i"
    by (simp only: of_int_le_iff)
  then have "1 * ?v \<le> of_int ?i * ?v"
    using vpos by (simp only: mult_right_mono less_imp_le of_int_1)
  with diff have gap: "?v \<le> q - 2 * rat_of_nat m"
    by simp
  have unit: "q / 2 ^ 53 \<le> ?v"
  proof (cases "ilog2 q \<le> 52")
    case True
    then have e: "e = ilog2 q" by (simp add: e_def)
    have "(2::rat) powi e = 2 ^ 52 * ?v"
      using powi_52 [of e] vpos by (simp add: field_simps)
    moreover have "q < 2 * 2 powi e"
      using b by (simp add: e powi_Suc)
    ultimately have "q < 2 ^ 53 * ?v" by simp
    then show ?thesis by (simp add: field_simps)
  next
    case False
    then have "e = 52" by (simp add: e_def)
    then have "?v = 1" by simp
    with assms(2) show ?thesis by simp
  qed
  from gap unit have "2 * rat_of_nat m \<le> q - q / 2 ^ 53"
    by linarith
  then have "rat_of_nat m \<le> (1 / 2 - 1 / 2 ^ 54) * q"
    by (simp add: algebra_simps)
  then have "rat_of_nat m / q \<le> 1 / 2 - 1 / 2 ^ 54"
    using assms(1) by (simp add: pos_divide_le_eq)
  moreover have "(2::rat) powi (- 54) = 1 / 2 ^ 54"
    by (simp add: power_int_minus_divide)
  ultimately show ?thesis
    by simp
qed

lemma throttle_iff:
  assumes "count_in_range q"
  shows "jsge (jsdiv (Fin (of_nat m)) (Fin q)) (Fin limit_after_percent) \<longleftrightarrow>
         q \<le> 2 * of_nat m"
proof (cases "m = 0")
  case True
  with assms show ?thesis
    by (simp add: jsdiv_def limit_after_percent_def count_in_range_def)
next
  case False
  from assms have q: "0 < q" "q \<le> 2 ^ 53" "is_double q"
    by (simp_all add: count_in_range_def)
  have d: "jsdiv (Fin (of_nat m)) (Fin q) = to_double (of_nat m / q)"
    using False q(1) by (simp add: jsdiv_finite)
  show ?thesis
  proof (cases "q \<le> 2 * of_nat m")
    case True
    then have "1 / 2 \<le> rat_of_nat m / q"
      using q(1) by (simp add: field_simps)
    from to_double_ge_half [OF this] have "jsge (to_double (of_nat m / q)) (Fin (1 / 2))"
      by auto
    with True show ?thesis
      by (simp add: d limit_after_percent_def)
  next
    case less: False
    then have "2 * rat_of_nat m < q"
      by simp
    from below_half [OF q this] have up: "rat_of_nat m / q \<le> 1 / 2 - 2 powi (- 54)" .
    have "0 < rat_of_nat m / q"
      using False q(1) by simp
    from to_double_less_half [OF this up]
    have "\<not> jsge (to_double (of_nat m / q)) (Fin (1 / 2))"
      by auto
    with less show ?thesis
      by (simp add: d limit_after_percent_def)
  qed
qed

lemma exec_timeouts_awake:
  "sleeping s = 0 \<Longrightarrow> exec (replicate k Timeout) s = Some s"
  by (induction k) (simp_all add: resume_def)

lemma loop_step:
  assumes "head b = Some a" "\<not> throws (fn (heap b ! a))"
    "requests_allowed b = Fin q" "count_in_range q"
  shows "loop b =
     (if q \<le> 2 * of_nat (requests_made b + 1)
      then Some (b\<lparr>requests_made := requests_made b + 1,
                   trace := trace b @ [Call (fn (heap b ! a)), SetTimeout (delay_ms b)],
                   sleeping := sleeping b + 1\<rparr>)
      else loop (b\<lparr>requests_made := requests_made b + 1,
                   trace := trace b @ [Call (fn (heap b ! a))],
                   head := next (heap b ! a)\<rparr>))"
  using assms throttle_iff [OF assms(4), of "requests_made b + 1"]
  by (subst loop.simps) (simp add: Let_def del: of_nat_Suc of_nat_add)

lemma drain_trace:
  assumes "path (heap b) (head b) as" "\<forall>a\<in>set as. \<not> throws (fn (heap b ! a))"
    "requests_allowed b = Fin q" "count_in_range q" "sleeping b = 0" "length as \<le> k"
  shows "\<exists>b1 b'. loop b = Some b1 \<and> exec (replicate k Timeout) b1 = Some b'
     \<and> trace b' = trace b @ pacing (requests_made b) q (delay_ms b) (tasks_at (heap b) as)
     \<and> head b' = None \<and> \<not> is_running b' \<and> sleeping b' = 0
     \<and> requests_made b' = requests_made b + length as"
  using assms
proof (induction as arbitrary: b k)
  case Nil
  then have "head b = None" by (cases "head b") simp_all
  then have "loop b = Some (release b)"
    by (subst loop.simps) simp
  moreover have "exec (replicate k Timeout) (release b) = Some (release b)"
    using Nil.prems(5) by (simp add: exec_timeouts_awake release_def)
  ultimately show ?case
    using Nil.prems(5) by (simp add: release_def tasks_at_def)
next
  case (Cons a as)
  from Cons.prems(1) have hd: "head b = Some a" and p: "path (heap b) (next (heap b ! a)) as"
    by (cases "head b"; simp)+
  from Cons.prems(2) have nt: "\<not> throws (fn (heap b ! a))" by simp
  note step = loop_step [OF hd nt Cons.prems(3,4)]
  show ?case
  proof (cases "q \<le> 2 * of_nat (requests_made b + 1)")
    case True
    let ?b3 = "b\<lparr>requests_made := requests_made b + 1,
                   trace := trace b @ [Call (fn (heap b ! a)), SetTimeout (delay_ms b)],
                   sleeping := sleeping b + 1\<rparr>"
    let ?b4 = "?b3\<lparr>sleeping := 0, head := next (heap b ! a)\<rparr>"
    from Cons.prems(6) obtain k' where k: "k = Suc k'" "length as \<le> k'"
      by (cases k) simp_all
    have "\<exists>b1 b'. loop ?b4 = Some b1 \<and> exec (replicate k' Timeout) b1 = Some b'
       \<and> trace b' = trace ?b4 @ pacing (requests_made ?b4) q (delay_ms ?b4) (tasks_at (heap ?b4) as)
       \<and> head b' = None \<and> \<not> is_running b' \<and> sleeping b' = 0
       \<and> requests_made b' = requests_made ?b4 + length as"
      using p Cons.prems(2,3,4) k(2) by (intro Cons.IH) simp_all
    then obtain b1 b' where
      l: "loop ?b4 = Some b1" and e: "exec (replicate k' Timeout) b1 = Some b'"
      and r: "trace b' = trace ?b4 @ pacing (requests_made ?b4) q (delay_ms ?b4) (tasks_at (heap ?b4) as)"
         "head b' = None" "\<not> is_running b'" "sleeping b' = 0"
         "requests_made b' = requests_made ?b4 + length as"
      by blast
    have res: "resume ?b3 = Some b1"
      using hd l Cons.prems(5) by (simp add: resume_def)
    have "loop b = Some ?b3"
      using step True by simp
    moreover have "exec (replicate k Timeout) ?b3 = Some b'"
      using res e k(1) by simp
    ultimately show ?thesis
      using r True by (simp add: tasks_at_def)
  next
    case False
    let ?b4 = "b\<lparr>requests_made := requests_made b + 1,
                   trace := trace b @ [Call (fn (heap b ! a))],
                   head := next (heap b ! a)\<rparr>"
    have "\<exists>b1 b'. loop ?b4 = Some b1 \<and> exec (replicate k Timeout) b1 = Some b'
       \<and> trace b' = trace ?b4 @ pacing (requests_made ?b4) q (delay_ms ?b4) (tasks_at (heap ?b4) as)
       \<and> head b' = None \<and> \<not> is_running b' \<and> sleeping b' = 0
       \<and> requests_made b' = requests_made ?b4 + length as"
      using p Cons.prems by (intro Cons.IH) simp_all
    moreover have "loop b = loop ?b4"
      using step False by simp
    ultimately show ?thesis
      using False by (simp add: tasks_at_def)
  qed
qed

lemma pacing_closed_aux:
  assumes "\<And>m. q \<le> 2 * rat_of_nat (m + 1) \<longleftrightarrow> c \<le> m"
  shows "pacing m q d ts =
     map Call (take (c - m) ts) @ concat (map (\<lambda>t. [Call t, SetTimeout d]) (drop (c - m) ts))"
proof (induction ts arbitrary: m)
  case Nil
  show ?case by simp
next
  case (Cons t ts)
  show ?case
  proof (cases "q \<le> 2 * rat_of_nat (m + 1)")
    case True
    with assms have "c \<le> m" by blast
    then have z: "c - m = 0" "c - (m + 1) = 0" by arith+
    have "pacing m q d (t # ts) = Call t # SetTimeout d # pacing (m + 1) q d ts"
      using True by simp
    also have "\<dots> = Call t # SetTimeout d # concat (map (\<lambda>t. [Call t, SetTimeout d]) ts)"
      by (simp only: Cons.IH [of "m + 1"] z) simp
    finally show ?thesis
      by (simp only: z) simp
  next
    case False
    with assms have "m < c" by (meson not_le)
    then obtain j where z: "c - m = Suc j" "c - (m + 1) = j"
      by (cases "c - m") simp_all
    have "pacing m q d (t # ts) = Call t # pacing (m + 1) q d ts"
      using False by simp
    also have "\<dots> = Call t # map Call (take j ts) @
        concat (map (\<lambda>t. [Call t, SetTimeout d]) (drop j ts))"
      by (simp only: Cons.IH [of "m + 1"] z)
    finally show ?thesis
      by (simp only: z) simp
  qed
qed

lemma pacing_append:
  "pacing m q d (ts @ us) = pacing m q d ts @ pacing (m + length ts) q d us"
  by (induction ts arbitrary: m) simp_all

lemma half_floor:
  assumes "0 < q" "n = nat \<lfloor>q * limit_after_percent\<rfloor>"
  shows "2 * rat_of_nat n \<le> q \<and> q < 2 * rat_of_nat n + 2"
proof -
  have nn: "0 \<le> \<lfloor>q / 2\<rfloor>"
    using assms(1) by simp
  have n: "rat_of_nat n = of_int \<lfloor>q / 2\<rfloor>"
    using assms(2) nn by (simp add: limit_after_percent_def)
  have "of_int \<lfloor>q / 2\<rfloor> \<le> q / 2" "q / 2 < of_int \<lfloor>q / 2\<rfloor> + 1"
    by linarith+
  with n show ?thesis by simp
qed

lemma pacing_shape:
  assumes "0 < q" "n = nat \<lfloor>q * limit_after_percent\<rfloor>"
  shows "pacing 0 q d ts =
     map Call (take n ts) @ (if 2 * of_nat n = q \<and> n \<le> length ts then [SetTimeout d] else []) @
     concat (map (\<lambda>t. [Call t, SetTimeout d]) (drop n ts))"
proof -
  note b = half_floor [OF assms]
  show ?thesis
  proof (cases "2 * rat_of_nat n = q")
    case False
    have c: "q \<le> 2 * rat_of_nat (m + 1) \<longleftrightarrow> n \<le> m" for m
    proof
      assume "q \<le> 2 * rat_of_nat (m + 1)"
      with b False have "2 * rat_of_nat n < 2 * rat_of_nat (m + 1)" by simp
      then have "rat_of_nat n < rat_of_nat (m + 1)" by simp
      then have "n < m + 1" by (simp only: of_nat_less_iff)
      then show "n \<le> m" by simp
    next
      assume "n \<le> m"
      then have "rat_of_nat n + 1 \<le> rat_of_nat (m + 1)" by simp
      with b show "q \<le> 2 * rat_of_nat (m + 1)" by simp
    qed
    from pacing_closed_aux [of q n 0 d ts, OF c] False show ?thesis by simp
  next
    case True
    with assms(1) have pos: "0 < n" by (cases n) simp_all
    have c: "q \<le> 2 * rat_of_nat (m + 1) \<longleftrightarrow> n - 1 \<le> m" for m
    proof -
      have "q \<le> 2 * rat_of_nat (m + 1) \<longleftrightarrow> rat_of_nat n \<le> rat_of_nat (m + 1)"
        using True by auto
      also have "\<dots> \<longleftrightarrow> n \<le> m + 1" by (simp only: of_nat_le_iff)
      also have "\<dots> \<longleftrightarrow> n - 1 \<le> m" by arith
      finally show ?thesis .
    qed
    note p = pacing_closed_aux [of q "n - 1" 0 d ts, OF c]
    from pos have n: "n = Suc (n - 1)" by simp
    show ?thesis
    proof (cases "n \<le> length ts")
      case le: True
      with pos have lt: "n - 1 < length ts" by simp
      have "take n ts = take (n - 1) ts @ [ts ! (n - 1)]"
        using lt n by (metis take_Suc_conv_app_nth)
      moreover have "drop (n - 1) ts = ts ! (n - 1) # drop n ts"
        using lt n by (metis Cons_nth_drop_Suc)
      ultimately show ?thesis
        using p le True by simp
    next
      case False
      with n have "length ts \<le> n - 1" by simp
      with p False show ?thesis by simp
    qed
  qed
qed

lemma path_in_range: "path h c as \<Longrightarrow> \<forall>a \<in> set as. a < length h"
proof (induction as arbitrary: c)
  case Nil
  show ?case by simp
next
  case (Cons a as)
  then show ?case by (cases c) auto
qed

lemma calm_enqueue:
  assumes "calm s" "\<not> throws f" "well_formed s"
  shows "calm (enqueue f p s)"
proof -
  consider (a) "head s = None"
    | (b) h pt where "p" "head s = Some h" "priority_tail s = Some pt"
    | (c) h where "p" "head s = Some h" "priority_tail s = None"
    | (e) h t where "\<not> p" "head s = Some h" "tail s = Some t"
    using assms(3)
    by (cases "priority_tail s"; cases "tail s"; cases "head s"; auto simp: well_formed_def)
  then show ?thesis
  proof cases
    case a
    with assms show ?thesis by (auto simp: calm_def enqueue_empty)
  next
    case b
    with assms(3) have "pt < length (heap s)" by (simp add: well_formed_def)
    then have "heap s ! pt \<in> set (heap s)" by simp
    with b assms(1,2) show ?thesis
      by (auto simp: calm_def enqueue_priority_after
          dest!: set_update_subset_insert [THEN subsetD])
  next
    case c
    with assms show ?thesis by (auto simp: calm_def enqueue_priority_front)
  next
    case e
    with assms(3) have "t < length (heap s)" by (simp add: well_formed_def)
    then have "heap s ! t \<in> set (heap s)" by simp
    with e assms(1,2) show ?thesis
      by (auto simp: calm_def enqueue_normal dest!: set_update_subset_insert [THEN subsetD])
  qed
qed

lemma loop_pacing:
  assumes "loop s = Some s'" "well_formed s" "calm s" "requests_allowed s = Fin q" "count_in_range q"
  shows "\<exists>ts. trace s' = trace s @ pacing (requests_made s) q (delay_ms s) ts
           \<and> requests_made s' = requests_made s + length ts"
  using assms
proof (induction rule: loop_induct)
  case (release s)
  have "trace (release s) = trace s @ pacing (requests_made s) q (delay_ms s) []
      \<and> requests_made (release s) = requests_made s + length ([] :: task list)"
    by (simp add: release_def)
  then show ?case by blast
next
  case (throw s a)
  from throw(1,3) have "heap s ! a \<in> set (heap s)" by (simp add: well_formed_def)
  with throw(2,4) show ?case by (simp add: calm_def)
next
  case (sleep s a)
  let ?f = "fn (heap s ! a)"
  let ?s' = "s\<lparr>requests_made := requests_made s + 1,
               trace := trace s @ [Call ?f, SetTimeout (delay_ms s)],
               sleeping := sleeping s + 1\<rparr>"
  from sleep(3,6,7) have "q \<le> 2 * of_nat (requests_made s + 1)"
    using throttle_iff [of q "requests_made s + 1"] by simp
  then have "trace ?s' = trace s @ pacing (requests_made s) q (delay_ms s) [?f]
      \<and> requests_made ?s' = requests_made s + length [?f]"
    by simp
  then show ?case by blast
next
  case (again s a s')
  let ?f = "fn (heap s ! a)"
  let ?s1 = "s\<lparr>requests_made := requests_made s + 1, trace := trace s @ [Call ?f],
               head := next (heap s ! a)\<rparr>"
  from wf_advance [OF again(5,1)] have w: "well_formed ?s1" by (simp add: well_formed_def)
  from again(6) have c: "calm ?s1" by (simp add: calm_def)
  from again(3,7,8) have n: "\<not> q \<le> 2 * of_nat (requests_made s + 1)"
    using throttle_iff [of q "requests_made s + 1"] by simp
  from again(4) [OF w c] again(7,8) obtain ts where
    ts: "trace s' = trace ?s1 @ pacing (requests_made ?s1) q (delay_ms ?s1) ts"
        "requests_made s' = requests_made ?s1 + length ts"
    by auto
  from ts n have "trace s' = trace s @ pacing (requests_made s) q (delay_ms s) (?f # ts)
      \<and> requests_made s' = requests_made s + length (?f # ts)"
    by simp
  then show ?case by blast
qed

lemma loop_calm:
  assumes "loop s = Some s'" "calm s"
  shows "calm s'"
  using loop_keeps [OF assms(1)] assms(2) by (simp add: calm_def)

lemma step_pacing:
  assumes "step e s = Some s'" "quiet e" "well_formed s" "calm s"
    "requests_allowed s = Fin q" "count_in_range q"
  shows "\<exists>ts. trace s' = trace s @ pacing (requests_made s) q (delay_ms s) ts
           \<and> requests_made s' = requests_made s + length ts
           \<and> calm s' \<and> delay_ms s' = delay_ms s \<and> requests_allowed s' = requests_allowed s"
proof -
  have idle: "\<exists>ts. trace s = trace s @ pacing (requests_made s) q (delay_ms s) ts
           \<and> requests_made s = requests_made s + length ts"
    by (rule exI [of _ "[]"]) simp
  show ?thesis
  proof (cases e)
    case (Push f p)
    with assms(2) have nt: "\<not> throws f" by simp
    let ?s1 = "enqueue f p s"
    have w1: "well_formed ?s1" using assms(3) by (rule wf_enqueue)
    have c1: "calm ?s1" using assms(4) nt assms(3) by (rule calm_enqueue)
    show ?thesis
    proof (cases "is_running s")
      case True
      with Push assms(1) have "s' = ?s1" by (simp add: push_def)
      with idle c1 show ?thesis by simp
    next
      case False
      let ?s2 = "?s1\<lparr>is_running := True\<rparr>"
      from False Push assms(1) have l: "loop ?s2 = Some s'" by (simp add: push_def run_def)
      have "well_formed ?s2" "calm ?s2" "requests_allowed ?s2 = Fin q"
        using w1 c1 assms(5) by (simp_all add: well_formed_def calm_def)
      from loop_pacing [OF l this assms(6)] loop_keeps [OF l] loop_calm [OF l \<open>calm ?s2\<close>]
      show ?thesis by simp
    qed
  next
    case Timeout
    show ?thesis
    proof (cases "sleeping s = 0 \<or> head s = None")
      case True
      with Timeout assms(1) have "s' = s \<or> s' = s\<lparr>sleeping := sleeping s - 1\<rparr>"
        by (auto simp: resume_def Let_def split: if_splits)
      with idle assms(4) show ?thesis by (auto simp: calm_def)
    next
      case False
      then obtain a where a: "head s = Some a" by auto
      let ?s2 = "s\<lparr>sleeping := sleeping s - 1, head := next (heap s ! a)\<rparr>"
      from False a Timeout assms(1) have l: "loop ?s2 = Some s'" by (simp add: resume_def)
      from wf_advance [OF assms(3) a] have "well_formed ?s2" by (simp add: well_formed_def)
      moreover have "calm ?s2" "requests_allowed ?s2 = Fin q"
        using assms(4,5) by (simp_all add: calm_def)
      ultimately show ?thesis
        using loop_pacing [OF l _ _ _ assms(6)] loop_keeps [OF l] loop_calm [OF l \<open>calm ?s2\<close>]
        by simp
    qed
  next
    case Interval
    with assms(2) show ?thesis by simp
  qed
qed

lemma exec_pacing:
  assumes "exec es s = Some s'" "\<forall>e \<in> set es. quiet e" "well_formed s" "calm s"
    "requests_allowed s = Fin q" "count_in_range q"
  shows "\<exists>ts. trace s' = trace s @ pacing (requests_made s) q (delay_ms s) ts
           \<and> requests_made s' = requests_made s + length ts"
  using assms
proof (induction es arbitrary: s)
  case Nil
  then have "trace s' = trace s @ pacing (requests_made s) q (delay_ms s) []
      \<and> requests_made s' = requests_made s + length ([] :: task list)"
    by simp
  then show ?case by blast
next
  case (Cons e es)
  from Cons.prems(1) obtain s1 where s1: "step e s = Some s1" "exec es s1 = Some s'"
    by (auto split: option.splits)
  from Cons.prems(2) have q: "quiet e" "\<forall>e \<in> set es. quiet e" by simp_all
  from step_pacing [OF s1(1) q(1) Cons.prems(3,4,5,6)] obtain ts where
    ts: "trace s1 = trace s @ pacing (requests_made s) q (delay_ms s) ts"
        "requests_made s1 = requests_made s + length ts"
        "calm s1" "delay_ms s1 = delay_ms s" "requests_allowed s1 = requests_allowed s"
    by blast
  have w1: "well_formed s1" using s1(1) Cons.prems(3) by (rule step_wf)
  from Cons.IH [OF s1(2) q(2) w1 ts(3)] ts(5) Cons.prems(5,6) obtain us where
    us: "trace s' = trace s1 @ pacing (requests_made s1) q (delay_ms s1) us"
        "requests_made s' = requests_made s1 + length us"
    by auto
  from ts us have "trace s' = trace s @ pacing (requests_made s) q (delay_ms s) (ts @ us)
      \<and> requests_made s' = requests_made s + length (ts @ us)"
    by (simp add: pacing_append)
  then show ?case by blast
qed

lemma drain_after_timeouts:
  assumes "sleeping b = 1" "head b = Some a0" "path (heap b) (next (heap b ! a0)) as"
    "calm b" "requests_allowed b = Fin q" "count_in_range q" "length as < k"
  shows "\<exists>b'. exec (replicate k Timeout) b = Some b'
     \<and> trace b' = trace b @ pacing (requests_made b) q (delay_ms b) (tasks_at (heap b) as)
     \<and> head b' = None \<and> \<not> is_running b' \<and> sleeping b' = 0"
proof -
  let ?b1 = "b\<lparr>sleeping := sleeping b - 1, head := next (heap b ! a0)\<rparr>"
  from assms(7) obtain k' where k: "k = Suc k'" "length as \<le> k'"
    by (cases k) simp_all
  have nt: "\<forall>a \<in> set as. \<not> throws (fn (heap ?b1 ! a))"
    using path_in_range [OF assms(3)] assms(4) by (simp add: calm_def)
  have "\<exists>b1 b'. loop ?b1 = Some b1 \<and> exec (replicate k' Timeout) b1 = Some b'
     \<and> trace b' = trace ?b1 @ pacing (requests_made ?b1) q (delay_ms ?b1) (tasks_at (heap ?b1) as)
     \<and> head b' = None \<and> \<not> is_running b' \<and> sleeping b' = 0
     \<and> requests_made b' = requests_made ?b1 + length as"
    using assms(1,3,5,6) nt k(2) by (intro drain_trace) simp_all
  then obtain b1 b' where r: "loop ?b1 = Some b1" "exec (replicate k' Timeout) b1 = Some b'"
     "trace b' = trace b @ pacing (requests_made b) q (delay_ms b) (tasks_at (heap b) as)"
     "head b' = None" "\<not> is_running b'" "sleeping b' = 0"
    by auto
  have "resume b = Some b1"
    using assms(1,2) r(1) by (simp add: resume_def)
  with r k(1) show ?thesis by simp
qed

lemma step_keeps:
  assumes "step e s = Some s'"
  shows "delay_ms s' = delay_ms s \<and> requests_allowed s' = requests_allowed s"
proof (cases e)
  case (Push f p)
  with assms show ?thesis
    by (auto simp: push_def run_def Let_def split: if_splits dest!: loop_keeps)
next
  case Timeout
  with assms show ?thesis
    by (auto simp: resume_def Let_def split: if_splits option.splits dest!: loop_keeps)
next
  case Interval
  with assms show ?thesis by (auto simp: reset_quota_def)
qed

lemma step_calm:
  assumes "step e s = Some s'" "harmless e" "well_formed s" "calm s"
  shows "calm s'"
proof (cases e)
  case (Push f p)
  with assms(2) have "calm (enqueue f p s)"
    using assms(3,4) by (simp add: calm_enqueue)
  moreover have "heap s' = heap (enqueue f p s)"
    using assms(1) Push
    by (auto simp: push_def run_def Let_def split: if_splits dest!: loop_keeps)
  ultimately show ?thesis by (simp add: calm_def)
next
  case Timeout
  with assms(1) have "heap s' = heap s"
    by (auto simp: resume_def Let_def split: if_splits option.splits dest!: loop_keeps)
  with assms(4) show ?thesis by (simp add: calm_def)
next
  case Interval
  with assms(1,4) show ?thesis by (auto simp: reset_quota_def calm_def)
qed

lemma exec_reachable:
  assumes "exec es s = Some s'" "\<forall>e \<in> set es. harmless e" "well_formed s" "calm s"
  shows "calm s' \<and> delay_ms s' = delay_ms s \<and> requests_allowed s' = requests_allowed s"
  using assms
proof (induction es arbitrary: s)
  case Nil
  then show ?case by simp
next
  case (Cons e es)
  from Cons.prems(1) obtain s1 where s1: "step e s = Some s1" "exec es s1 = Some s'"
    by (auto split: option.splits)
  from Cons.prems(2) have h: "harmless e" "\<forall>e \<in> set es. harmless e" by simp_all
  have "calm s1" using s1(1) h(1) Cons.prems(3,4) by (rule step_calm)
  moreover have "well_formed s1" using s1(1) Cons.prems(3) by (rule step_wf)
  ultimately show ?case
    using Cons.IH [OF s1(2) h(2)] step_keeps [OF s1(1)] by simp
qed

lemma path_snoc:
  assumes "path h (Some a0) (a0 # as)" "distinct (a0 # as)"
  shows "path ((h @ [\<lparr>fn = f, next = None\<rparr>])
                 [last (a0 # as) := (h ! last (a0 # as))\<lparr>next := Some (length h)\<rparr>])
              (Some a0) (a0 # as @ [length h])"
  using assms
proof (induction as arbitrary: a0)
  case Nil
  then have "a0 < length h" by simp
  then show ?case by (simp add: nth_append)
next
  case (Cons a1 as)
  from Cons.prems(1) have a0: "a0 < length h" and n: "path h (next (h ! a0)) (a1 # as)"
    by simp_all
  then have nx: "next (h ! a0) = Some a1"
    by (cases "next (h ! a0)") simp_all
  with n have p1: "path h (Some a1) (a1 # as)" by simp
  from Cons.prems(2) have d1: "distinct (a1 # as)" and "a0 \<notin> set (a1 # as)"
    by simp_all
  moreover have "last (a1 # as) \<in> set (a1 # as)"
    by (rule last_in_set) simp
  ultimately have ne: "a0 \<noteq> last (a1 # as)" by metis
  from Cons.IH [OF p1 d1] a0 ne nx show ?case
    by (simp add: nth_append)
qed

lemma tasks_at_snoc:
  assumes "\<forall>a \<in> set as. a < length h" "t < length h"
  shows "tasks_at ((h @ [\<lparr>fn = f, next = None\<rparr>])[t := (h ! t)\<lparr>next := Some (length h)\<rparr>])
           (as @ [length h]) = tasks_at h as @ [f]"
proof -
  let ?h = "(h @ [\<lparr>fn = f, next = None\<rparr>])[t := (h ! t)\<lparr>next := Some (length h)\<rparr>]"
  have "fn (?h ! a) = fn (h ! a)" if "a < length h" for a
    using that by (cases "a = t") (simp_all add: nth_append)
  then have "map (\<lambda>a. fn (?h ! a)) as = map (\<lambda>a. fn (h ! a)) as"
    using assms(1) by simp
  moreover have "fn (?h ! length h) = f"
    using assms(2) by simp
  ultimately show ?thesis
    by (simp add: tasks_at_def)
qed

lemma pushes_while_sleeping:
  assumes "sleeping b = 1" "is_running b" "path (heap b) (head b) (a0 # as)"
    "distinct (a0 # as)" "tail b = Some (last (a0 # as))" "well_formed b" "calm b"
    "requests_allowed b = Fin q" "count_in_range q"
    "\<forall>t \<in> set ts. \<not> throws t" "length as + length ts < k"
  shows "\<exists>b'. exec (map (\<lambda>t. Push t False) ts @ replicate k Timeout) b = Some b'
     \<and> trace b' = trace b @ pacing (requests_made b) q (delay_ms b) (tasks_at (heap b) as @ ts)
     \<and> head b' = None \<and> \<not> is_running b' \<and> sleeping b' = 0"
  using assms
proof (induction ts arbitrary: b as)
  case Nil
  from Nil.prems(3) have hd: "head b = Some a0"
    and p: "path (heap b) (next (heap b ! a0)) as"
    by (cases "head b"; simp)+
  from Nil.prems(11) have "length as < k" by simp
  from drain_after_timeouts [OF Nil.prems(1) hd p Nil.prems(7,8,9) this]
  show ?case by simp
next
  case (Cons t ts)
  from Cons.prems(3) have hd: "head b = Some a0"
    by (cases "head b"; simp)
  let ?a = "length (heap b)"
  let ?l = "last (a0 # as)"
  let ?b1 = "enqueue t False b"
  have b1: "?b1 = b\<lparr>heap := (heap b @ [\<lparr>fn = t, next = None\<rparr>])
                         [?l := (heap b ! ?l)\<lparr>next := Some ?a\<rparr>],
                   tail := Some ?a\<rparr>"
    using hd Cons.prems(5) by (rule enqueue_normal)
  have st: "step (Push t False) b = Some ?b1"
    using Cons.prems(2) by (simp add: push_def)
  from Cons.prems(3) hd have range: "\<forall>a \<in> set (a0 # as). a < ?a"
    using path_in_range [of "heap b" "Some a0" "a0 # as"] by simp
  then have l: "?l < ?a"
    using last_in_set [of "a0 # as"] by blast
  have p1: "path (heap ?b1) (head ?b1) (a0 # (as @ [?a]))"
    using path_snoc [of "heap b" a0 as t] Cons.prems(3,4) hd by (simp add: b1)
  have d1: "distinct (a0 # (as @ [?a]))"
    using Cons.prems(4) range by auto
  have t1: "tail ?b1 = Some (last (a0 # (as @ [?a])))"
    by (simp add: b1)
  have w1: "well_formed ?b1"
    using Cons.prems(6) by (rule wf_enqueue)
  from Cons.prems(10) have nt: "\<not> throws t" "\<forall>t \<in> set ts. \<not> throws t"
    by simp_all
  have c1: "calm ?b1"
    using Cons.prems(7) nt(1) Cons.prems(6) by (rule calm_enqueue)
  have k1: "length (as @ [?a]) + length ts < k"
    using Cons.prems(11) by simp
  have "\<exists>b'. exec (map (\<lambda>t. Push t False) ts @ replicate k Timeout) ?b1 = Some b'
     \<and> trace b' = trace ?b1 @ pacing (requests_made ?b1) q (delay_ms ?b1)
                                 (tasks_at (heap ?b1) (as @ [?a]) @ ts)
     \<and> head b' = None \<and> \<not> is_running b' \<and> sleeping b' = 0"
    using Cons.prems(1,2,8,9) p1 d1 t1 w1 c1 nt(2) k1 by (intro Cons.IH) simp_all
  moreover have "tasks_at (heap ?b1) (as @ [?a]) = tasks_at (heap b) as @ [t]"
    using tasks_at_snoc [of as "heap b" ?l t] range l by (simp add: b1)
  ultimately show ?case
    using st by simp
qed

lemma pushes_while_idle:
  assumes "\<not> is_running b" "head b = None" "sleeping b = 0" "well_formed b" "calm b"
    "requests_allowed b = Fin q" "count_in_range q"
    "\<forall>t \<in> set ts. \<not> throws t" "length ts \<le> k"
  shows "\<exists>b'. exec (map (\<lambda>t. Push t False) ts @ replicate k Timeout) b = Some b'
     \<and> trace b' = trace b @ pacing (requests_made b) q (delay_ms b) ts
     \<and> head b' = None \<and> \<not> is_running b' \<and> sleeping b' = 0"
  using assms
proof (induction ts arbitrary: b)
  case Nil
  then show ?case by (simp add: exec_timeouts_awake)
next
  case (Cons t ts)
  let ?a = "length (heap b)"
  let ?b0 = "enqueue t False b"
  let ?b1 = "?b0\<lparr>is_running := True\<rparr>"
  have b0: "?b0 = b\<lparr>heap := heap b @ [\<lparr>fn = t, next = None\<rparr>], head := Some ?a,
                   tail := Some ?a, priority_tail := priority_tail b\<rparr>"
    using enqueue_empty [OF Cons.prems(2), of t False] by simp
  from Cons.prems(8) have nt: "\<not> throws t" "\<forall>t \<in> set ts. \<not> throws t"
    by simp_all
  have w0: "well_formed ?b0"
    using Cons.prems(4) by (rule wf_enqueue)
  have c0: "calm ?b0"
    using Cons.prems(5) nt(1) Cons.prems(4) by (rule calm_enqueue)
  have st: "step (Push t False) b = loop ?b1"
    using Cons.prems(1) by (simp add: push_def run_def)
  have hd1: "head ?b1 = Some ?a"
    by (simp add: b0)
  have f1: "fn (heap ?b0 ! ?a) = t" "next (heap ?b0 ! ?a) = None"
    by (simp_all add: b0)
  have nt1: "\<not> throws (fn (heap ?b1 ! ?a))"
    using nt(1) by (simp add: f1)
  have ra: "requests_allowed ?b1 = Fin q"
    using Cons.prems(6) by simp
  note step = loop_step [OF hd1 nt1 ra Cons.prems(7)]
  show ?case
  proof (cases "q \<le> 2 * of_nat (requests_made b + 1)")
    case True
    let ?bS = "?b1\<lparr>requests_made := requests_made ?b1 + 1,
                    trace := trace ?b1 @ [Call t, SetTimeout (delay_ms ?b1)],
                    sleeping := sleeping ?b1 + 1\<rparr>"
    have l: "loop ?b1 = Some ?bS"
      using step True by (simp add: f1)
    have "sleeping ?bS = 1" "is_running ?bS"
      using Cons.prems(3) by simp_all
    moreover have "path (heap ?bS) (head ?bS) (?a # [])" "tail ?bS = Some (last (?a # []))"
      by (simp_all add: b0)
    moreover have "well_formed ?bS" "calm ?bS"
      using w0 c0 by (simp_all add: well_formed_def calm_def)
    moreover have "requests_allowed ?bS = Fin q"
      using Cons.prems(6) by simp
    moreover have "length ([] :: addr list) + length ts < k"
      using Cons.prems(9) by simp
    ultimately have "\<exists>b'. exec (map (\<lambda>t. Push t False) ts @ replicate k Timeout) ?bS = Some b'
       \<and> trace b' = trace ?bS @ pacing (requests_made ?bS) q (delay_ms ?bS)
                                   (tasks_at (heap ?bS) [] @ ts)
       \<and> head b' = None \<and> \<not> is_running b' \<and> sleeping b' = 0"
      using Cons.prems(7) nt(2) by (intro pushes_while_sleeping) simp_all
    then show ?thesis
      using st l True by (simp add: tasks_at_def)
  next
    case False
    let ?bN = "?b1\<lparr>requests_made := requests_made ?b1 + 1, trace := trace ?b1 @ [Call t],
                    head := None\<rparr>"
    have "loop ?b1 = loop ?bN"
      using step False by (simp add: f1)
    also have "\<dots> = Some (release ?bN)"
      by (subst loop.simps) simp
    finally have l: "loop ?b1 = Some (release ?bN)" .
    have "\<not> is_running (release ?bN)" "head (release ?bN) = None"
      "sleeping (release ?bN) = 0"
      using Cons.prems(3) by (simp_all add: release_def)
    moreover have "well_formed (release ?bN)" "calm (release ?bN)"
      using w0 c0 by (simp_all add: well_formed_def calm_def release_def)
    moreover have "requests_allowed (release ?bN) = Fin q"
      using Cons.prems(6) by (simp add: release_def)
    moreover have "length ts \<le> k"
      using Cons.prems(9) by simp
    ultimately have "\<exists>b'. exec (map (\<lambda>t. Push t False) ts @ replicate k Timeout) (release ?bN)
          = Some b'
       \<and> trace b' = trace (release ?bN) @
            pacing (requests_made (release ?bN)) q (delay_ms (release ?bN)) ts
       \<and> head b' = None \<and> \<not> is_running b' \<and> sleeping b' = 0"
      using Cons.prems(7) nt(2) by (intro Cons.IH) simp_all
    then show ?thesis
      using st l False by (simp add: release_def)
  qed
qed

lemma burst_delay:
  assumes "count_in_range q" "interval_ms_of i = Some ms" "ms / q < 2 powi 1022"
  shows "\<exists>x. jsdiv (Fin ms) (Fin q) = Fin x \<and>
           jsdiv (jsdiv (Fin ms) (Fin q)) (Fin (1 - limit_after_percent)) = Fin (2 * x) \<and>
           0 < x \<and> \<bar>x - ms / q\<bar> \<le> ms / q / 2 ^ 53"
proof -
  from assms(1) have q: "0 < q" "q \<le> 2 ^ 53"
    by (simp_all add: count_in_range_def)
  from assms(2) have ms: "1 \<le> ms" "0 < ms"
    by (auto simp: interval_ms_of_cases)
  have "(2::rat) powi (- 1022) \<le> 2 powi (- 53)"
    by (rule powi_mono) simp
  also have "\<dots> = 1 / 2 ^ 53"
    by (simp add: power_int_minus_divide)
  also have "\<dots> \<le> ms / q"
    by (rule frac_le) (use q ms in simp_all)
  finally have lo: "2 powi (- 1022) \<le> ms / q" .
  have d: "jsdiv (Fin ms) (Fin q) = to_double (ms / q)"
    using q ms by (simp add: jsdiv_finite)
  have "(2::rat) powi 1022 \<le> 2 powi 1023"
    by (rule powi_mono) simp
  with assms(3) have "ms / q \<le> 2 powi 1023"
    by linarith
  from to_double_error [OF lo this] obtain x where
    x: "to_double (ms / q) = Fin x" "\<bar>x - ms / q\<bar> \<le> ms / q / 2 ^ 53" "0 < x"
    by blast
  from to_double_idem [OF lo x(1)] have dbl: "is_double x" "2 powi (- 1022) \<le> x"
    by simp_all
  have "ms / q / 2 ^ 53 \<le> ms / q"
    using q ms by (simp add: field_simps)
  with x(2) have "x \<le> 2 * (ms / q)"
    by linarith
  also have "\<dots> < 2 * 2 powi 1022"
    using assms(3) by simp
  also have "\<dots> = 2 powi (1022 + 1)"
    by (simp only: powi_Suc)
  finally have "x < 2 powi 1023"
    by simp
  from double_twice [OF dbl this] have "to_double (2 * x) = Fin (2 * x)" .
  then have "jsdiv (Fin x) (Fin (1 - limit_after_percent)) = Fin (2 * x)"
    using x(3) by (simp add: jsdiv_by_half)
  with x show ?thesis
    by (simp add: d)
qed

text \<open>
  The delays of 3 per second: 333.3333333333333 in the fixed variant, and twice that,
  666.6666666666666, in the burst variant.
\<close>

lemma constructor_3_per_second:
  "constructor_fixed (Spec ''3 per second'') = Inr (fresh (Fin (5864062014805333 / 2 ^ 44)))"
  "constructor (Spec ''3 per second'') =
     Inr \<lparr>delay_ms = Fin (5864062014805333 / 2 ^ 43), head = None, priority_tail = None,
          tail = None, is_running = False, heap = [], trace = [SetInterval 1000], sleeping = 0,
          requests_made = 0, requests_allowed = Fin 3\<rparr>"
  by code_simp+

text \<open>
  C2. Take a burst limiter constructed with a count \<open>q\<close> in range (a positive double up
  to \<open>2^53\<close>) and a unit of \<open>ms\<close> milliseconds, in any state \<open>b\<close> it has reached (by
  events that brought no throwing task) in which \<open>requests_made\<close> is 0: a fresh quota
  window. Let \<open>n = floor (q * limit_after_percent)\<close>, and let \<open>d\<close> be the delay that the
  constructor has computed, \<open>ms / q / (1 - limit_after_percent)\<close> with the operator \<open>/\<close>.
  Unless the count is so small that the quotient reaches \<open>2^1022\<close>, \<open>d\<close> is twice the
  fixed delay \<open>ms / q\<close>, which is finite, positive and within the relative error
  \<open>2^-53\<close> of the exact quotient.

  \<^item> When the limiter is idle in \<open>b\<close> (so for the limiter just constructed) and the
    tasks \<open>ts\<close>, none of which throws, are pushed with normal priority, enough timeouts
    drain the queue: the run ends idle, every task has been called once, in the order
    of the pushes, the first \<open>n\<close> calls with nothing between them, every further call
    followed by \<open>setTimeout\<close> with delay \<open>d\<close>. The test is
    \<open>requests_made / requests_allowed >= limit_after_percent\<close> after the increment, so
    when \<open>q\<close> is twice \<open>n\<close> the \<open>n\<close>-th call itself is already followed by the timer.
  \<^item> When the loop is suspended in \<open>b\<close> with the tasks \<open>ts\<close> queued behind the node it
    stands on, enough timeouts drain the queue: the run ends idle, and the trace has
    grown in exactly this way for \<open>ts\<close>.
  \<^item> Whatever pushes of non-throwing tasks and timeouts follow within the window, the
    trace grows in this way for some list of tasks.
\<close>

theorem burst_window:
  assumes "constructor args = Inr b0" and "parse_args args = (Fin q, i)" and "count_in_range q"
    and "interval_ms_of i = Some ms"
    and "exec es0 b0 = Some b" and "\<forall>e \<in> set es0. harmless e"
    and "requests_made b = 0"
    and "n = nat \<lfloor>q * limit_after_percent\<rfloor>"
    and "d = jsdiv (jsdiv (Fin ms) (Fin q)) (Fin (1 - limit_after_percent))"
  shows "(ms / q < 2 powi 1022 \<longrightarrow>
            (\<exists>x. jsdiv (Fin ms) (Fin q) = Fin x \<and> d = Fin (2 * x) \<and> 0 < x \<and>
               \<bar>x - ms / q\<bar> \<le> ms / q / 2 ^ 53))
       \<and> (\<forall>ts k. \<not> is_running b \<and> (\<forall>t \<in> set ts. \<not> throws t) \<and> length ts \<le> k \<longrightarrow>
           (\<exists>b'. exec (map (\<lambda>t. Push t False) ts @ replicate k Timeout) b = Some b' \<and>
              head b' = None \<and> \<not> is_running b' \<and>
              trace b' = trace b @ map Call (take n ts) @
                (if 2 * of_nat n = q \<and> n \<le> length ts then [SetTimeout d] else []) @
                concat (map (\<lambda>t. [Call t, SetTimeout d]) (drop n ts))))
       \<and> (\<forall>a0 as k. sleeping b = 1 \<and> head b = Some a0 \<and>
             path (heap b) (next (heap b ! a0)) as \<and> length as < k \<longrightarrow>
           (\<exists>b'. exec (replicate k Timeout) b = Some b' \<and> head b' = None \<and> \<not> is_running b' \<and>
              trace b' = trace b @ map Call (take n (tasks_at (heap b) as)) @
                (if 2 * of_nat n = q \<and> n \<le> length as then [SetTimeout d] else []) @
                concat (map (\<lambda>t. [Call t, SetTimeout d]) (drop n (tasks_at (heap b) as)))))
       \<and> (\<forall>es b'. exec es b = Some b' \<and> (\<forall>e \<in> set es. quiet e) \<longrightarrow>
           (\<exists>ts. trace b' = trace b @ map Call (take n ts) @
                   (if 2 * of_nat n = q \<and> n \<le> length ts then [SetTimeout d] else []) @
                   concat (map (\<lambda>t. [Call t, SetTimeout d]) (drop n ts))))"
proof -
  note b0 = constructor_count [OF assms(1,2,4)]
  have w0: "well_formed b0" using assms(1) by (rule constructor_wf)
  have c0: "calm b0" by (subst b0) (simp add: calm_def)
  have pos: "0 < q" using assms(3) by (simp add: count_in_range_def)
  have "delay_ms b0 = d"
    by (subst b0) (simp add: assms(9))
  moreover have "requests_allowed b0 = Fin q"
    by (subst b0) simp
  ultimately have keep: "calm b" "delay_ms b = d" "requests_allowed b = Fin q"
    using exec_reachable [OF assms(5,6) w0 c0] by simp_all
  have w: "well_formed b" using assms(5) w0 by (rule exec_wf)
  have st: "steady b" using assms(1,5) by (rule reachable_steady(1))
  note shape = pacing_shape [OF pos assms(8), of d]
  show ?thesis
  proof (intro conjI allI impI)
    assume "ms / q < 2 powi 1022"
    from burst_delay [OF assms(3,4) this]
    show "\<exists>x. jsdiv (Fin ms) (Fin q) = Fin x \<and> d = Fin (2 * x) \<and> 0 < x \<and>
            \<bar>x - ms / q\<bar> \<le> ms / q / 2 ^ 53"
      by (simp only: assms(9))
  next
    fix ts :: "task list" and k
    assume h: "\<not> is_running b \<and> (\<forall>t \<in> set ts. \<not> throws t) \<and> length ts \<le> k"
    then have idle: "\<not> is_running b" "head b = None" "sleeping b = 0"
      using st by (auto simp: steady_def single_flight_def)
    from h have "\<forall>t \<in> set ts. \<not> throws t" "length ts \<le> k"
      by simp_all
    from pushes_while_idle [OF idle w keep(1,3) assms(3) this]
    show "\<exists>b'. exec (map (\<lambda>t. Push t False) ts @ replicate k Timeout) b = Some b' \<and>
              head b' = None \<and> \<not> is_running b' \<and>
              trace b' = trace b @ map Call (take n ts) @
                (if 2 * of_nat n = q \<and> n \<le> length ts then [SetTimeout d] else []) @
                concat (map (\<lambda>t. [Call t, SetTimeout d]) (drop n ts))"
      using keep(2) assms(7) by (auto simp: shape)
  next
    fix a0 as k
    assume h: "sleeping b = 1 \<and> head b = Some a0 \<and>
             path (heap b) (next (heap b ! a0)) as \<and> length as < k"
    then have "sleeping b = 1" "head b = Some a0" "path (heap b) (next (heap b ! a0)) as"
      "length as < k"
      by simp_all
    from drain_after_timeouts [OF this(1-3) keep(1,3) assms(3) this(4)]
    have "\<exists>b'. exec (replicate k Timeout) b = Some b'
       \<and> trace b' = trace b @ pacing (requests_made b) q (delay_ms b) (tasks_at (heap b) as)
       \<and> head b' = None \<and> \<not> is_running b' \<and> sleeping b' = 0" .
    then show "\<exists>b'. exec (replicate k Timeout) b = Some b' \<and> head b' = None \<and> \<not> is_running b' \<and>
              trace b' = trace b @ map Call (take n (tasks_at (heap b) as)) @
                (if 2 * of_nat n = q \<and> n \<le> length as then [SetTimeout d] else []) @
                concat (map (\<lambda>t. [Call t, SetTimeout d]) (drop n (tasks_at (heap b) as)))"
      using keep(2) assms(7) by (auto simp: shape tasks_at_def)
  next
    fix es b'
    assume "exec es b = Some b' \<and> (\<forall>e \<in> set es. quiet e)"
    then have "exec es b = Some b'" "\<forall>e \<in> set es. quiet e"
      by simp_all
    then have "\<exists>ts. trace b' = trace b @ pacing (requests_made b) q (delay_ms b) ts
       \<and> requests_made b' = requests_made b + length ts"
      using w keep(1,3) assms(3) by (rule exec_pacing)
    then show "\<exists>ts. trace b' = trace b @ map Call (take n ts) @
                   (if 2 * of_nat n = q \<and> n \<le> length ts then [SetTimeout d] else []) @
                   concat (map (\<lambda>t. [Call t, SetTimeout d]) (drop n ts))"
      using keep(2) assms(7) by (auto simp: shape)
  qed
qed

theorem burst_window_witness:
  "(\<exists>x. jsdiv (Fin 1000) (Fin 4) = Fin x \<and> Fin 500 = Fin (2 * x) \<and> 0 < x \<and>
        \<bar>x - 1000 / 4\<bar> \<le> 1000 / 4 / 2 ^ 53)
   \<and> (\<exists>b'. exec (map (\<lambda>t. Push t False)
                 [Task 1 False, Task 2 False, Task 3 False, Task 4 False, Task 5 False]
               @ replicate 5 Timeout)
          \<lparr>delay_ms = Fin 500, head = None, priority_tail = None, tail = None,
           is_running = False, heap = [], trace = [SetInterval 1000], sleeping = 0,
           requests_made = 0, requests_allowed = Fin 4\<rparr> = Some b'
        \<and> head b' = None \<and> \<not> is_running b'
        \<and> trace b' = [SetInterval 1000, Call (Task 1 False), Call (Task 2 False),
                      SetTimeout (Fin 500), Call (Task 3 False), SetTimeout (Fin 500),
                      Call (Task 4 False), SetTimeout (Fin 500),
                      Call (Task 5 False), SetTimeout (Fin 500)])
   \<and> (\<exists>b. exec [Push (Task 1 False) False, Push (Task 2 False) False, Push (Task 3 False) False,
             Push (Task 4 False) False, Push (Task 5 False) False, Interval]
          \<lparr>delay_ms = Fin 500, head = None, priority_tail = None, tail = None,
           is_running = False, heap = [], trace = [SetInterval 1000], sleeping = 0,
           requests_made = 0, requests_allowed = Fin 4\<rparr> = Some b
     \<and> requests_made b = 0 \<and> sleeping b = 1
     \<and> (\<exists>b'. exec (replicate 4 Timeout) b = Some b' \<and> head b' = None \<and> \<not> is_running b' \<and>
           trace b' = trace b @ [Call (Task 3 False), Call (Task 4 False), SetTimeout (Fin 500),
                                 Call (Task 5 False), SetTimeout (Fin 500)])
     \<and> (\<exists>ts. trace \<lparr>delay_ms = Fin 500, head = None, priority_tail = None, tail = None,
           is_running = False,
           heap = [\<lparr>fn = Task 1 False, next = None\<rparr>, \<lparr>fn = Task 2 False, next = Some 2\<rparr>,
                   \<lparr>fn = Task 3 False, next = Some 3\<rparr>, \<lparr>fn = Task 4 False, next = Some 4\<rparr>,
                   \<lparr>fn = Task 5 False, next = None\<rparr>],
           trace = [SetInterval 1000, Call (Task 1 False), Call (Task 2 False),
                    SetTimeout (Fin 500), Call (Task 3 False), Call (Task 4 False),
                    SetTimeout (Fin 500), Call (Task 5 False), SetTimeout (Fin 500)],
           sleeping = 0, requests_made = 3, requests_allowed = Fin 4\<rparr> =
         trace b @ map Call (take 2 ts) @
           (if 2 * of_nat 2 = (4::rat) \<and> 2 \<le> length ts then [SetTimeout (Fin 500)] else []) @
           concat (map (\<lambda>t. [Call t, SetTimeout (Fin 500)]) (drop 2 ts))))"
proof -
  let ?init = "\<lparr>delay_ms = Fin 500, head = None, priority_tail = None, tail = None,
           is_running = False, heap = [], trace = [SetInterval 1000], sleeping = 0,
           requests_made = 0, requests_allowed = Fin 4\<rparr>"
  let ?pushes = "[Push (Task 1 False) False, Push (Task 2 False) False, Push (Task 3 False) False,
             Push (Task 4 False) False, Push (Task 5 False) False, Interval]"
  let ?mid = "\<lparr>delay_ms = Fin 500, head = Some 1, priority_tail = None, tail = Some 4,
           is_running = True,
           heap = [\<lparr>fn = Task 1 False, next = None\<rparr>, \<lparr>fn = Task 2 False, next = Some 2\<rparr>,
                   \<lparr>fn = Task 3 False, next = Some 3\<rparr>, \<lparr>fn = Task 4 False, next = Some 4\<rparr>,
                   \<lparr>fn = Task 5 False, next = None\<rparr>],
           trace = [SetInterval 1000, Call (Task 1 False), Call (Task 2 False),
                    SetTimeout (Fin 500)],
           sleeping = 1, requests_made = 0, requests_allowed = Fin 4\<rparr>"
  let ?fin = "\<lparr>delay_ms = Fin 500, head = None, priority_tail = None, tail = None,
           is_running = False,
           heap = [\<lparr>fn = Task 1 False, next = None\<rparr>, \<lparr>fn = Task 2 False, next = Some 2\<rparr>,
                   \<lparr>fn = Task 3 False, next = Some 3\<rparr>, \<lparr>fn = Task 4 False, next = Some 4\<rparr>,
                   \<lparr>fn = Task 5 False, next = None\<rparr>],
           trace = [SetInterval 1000, Call (Task 1 False), Call (Task 2 False),
                    SetTimeout (Fin 500), Call (Task 3 False), Call (Task 4 False),
                    SetTimeout (Fin 500), Call (Task 5 False), SetTimeout (Fin 500)],
           sleeping = 0, requests_made = 3, requests_allowed = Fin 4\<rparr>"
  let ?ts = "[Task 1 False, Task 2 False, Task 3 False, Task 4 False, Task 5 False]"
  have c: "constructor (Spec ''4 per second'') = Inr ?init"
    by (rule constructor_4_per_second)
  have N: "count_in_range 4" by code_simp
  have u: "interval_ms_of (Some ''per second'') = Some 1000"
    by (simp add: interval_ms_of_def)
  have n: "(2::nat) = nat \<lfloor>4 * limit_after_percent\<rfloor>"
    by (simp add: limit_after_percent_def)
  have d: "Fin 500 = jsdiv (jsdiv (Fin 1000) (Fin 4)) (Fin (1 - limit_after_percent))"
    by code_simp
  have e0: "exec [] ?init = Some ?init" "\<forall>e \<in> set ([] :: event list). harmless e"
    by simp_all
  have m0: "requests_made ?init = 0"
    by simp
  note w0 = burst_window [OF c parse_4_per_second N u e0 m0 n d]
  have r: "(1000::rat) / 4 < 2 powi 1022"
    by simp
  from w0 [THEN conjunct1, rule_format, OF r]
  have delay: "\<exists>x. jsdiv (Fin 1000) (Fin 4) = Fin x \<and> Fin 500 = Fin (2 * x) \<and> 0 < x \<and>
        \<bar>x - 1000 / 4\<bar> \<le> 1000 / 4 / 2 ^ 53" .
  have i0: "\<not> is_running ?init \<and> (\<forall>t \<in> set ?ts. \<not> throws t) \<and> length ?ts \<le> 5"
    by simp
  from w0 [THEN conjunct2, THEN conjunct1, rule_format, of ?ts 5, OF i0]
  have zeroth: "\<exists>b'. exec (map (\<lambda>t. Push t False) ?ts @ replicate 5 Timeout) ?init = Some b'
        \<and> head b' = None \<and> \<not> is_running b'
        \<and> trace b' = [SetInterval 1000, Call (Task 1 False), Call (Task 2 False),
                      SetTimeout (Fin 500), Call (Task 3 False), SetTimeout (Fin 500),
                      Call (Task 4 False), SetTimeout (Fin 500),
                      Call (Task 5 False), SetTimeout (Fin 500)]"
    by simp
  have e: "exec ?pushes ?init = Some ?mid"
    by code_simp
  have h: "\<forall>e \<in> set ?pushes. harmless e"
    by simp
  have m: "requests_made ?mid = 0"
    by simp
  note w = burst_window [OF c parse_4_per_second N u e h m n d]
  have e': "exec (replicate 4 Timeout) ?mid = Some ?fin"
    by code_simp
  have q: "\<forall>e \<in> set (replicate 4 Timeout). quiet e"
    by simp
  from w [THEN conjunct2, THEN conjunct2, THEN conjunct2, rule_format,
      of "replicate 4 Timeout" ?fin] e' q
  have first: "\<exists>ts. trace ?fin = trace ?mid @ map Call (take 2 ts) @
           (if 2 * of_nat 2 = (4::rat) \<and> 2 \<le> length ts then [SetTimeout (Fin 500)] else []) @
           concat (map (\<lambda>t. [Call t, SetTimeout (Fin 500)]) (drop 2 ts))"
    by blast
  have p: "sleeping ?mid = 1 \<and> head ?mid = Some 1 \<and>
      path (heap ?mid) (next (heap ?mid ! 1)) [2, 3, 4] \<and> length [2, 3, 4 :: nat] < 4"
    by simp
  from w [THEN conjunct2, THEN conjunct2, THEN conjunct1, rule_format, of 1 "[2, 3, 4]" 4, OF p]
  have second: "\<exists>b'. exec (replicate 4 Timeout) ?mid = Some b' \<and> head b' = None \<and> \<not> is_running b' \<and>
           trace b' = trace ?mid @ [Call (Task 3 False), Call (Task 4 False), SetTimeout (Fin 500),
                                 Call (Task 5 False), SetTimeout (Fin 500)]"
    by (simp add: tasks_at_def)
  from e m first second have "\<exists>b. exec ?pushes ?init = Some b
     \<and> requests_made b = 0 \<and> sleeping b = 1
     \<and> (\<exists>b'. exec (replicate 4 Timeout) b = Some b' \<and> head b' = None \<and> \<not> is_running b' \<and>
           trace b' = trace b @ [Call (Task 3 False), Call (Task 4 False), SetTimeout (Fin 500),
                                 Call (Task 5 False), SetTimeout (Fin 500)])
     \<and> (\<exists>ts. trace ?fin =
         trace b @ map Call (take 2 ts) @
           (if 2 * of_nat 2 = (4::rat) \<and> 2 \<le> length ts then [SetTimeout (Fin 500)] else []) @
           concat (map (\<lambda>t. [Call t, SetTimeout (Fin 500)]) (drop 2 ts)))"
    by (intro exI [of _ ?mid]) simp
  with delay zeroth show ?thesis
    by (intro conjI)
qed

section \<open>The quota timer\<close>

lemma step_intervals:
  assumes "step e s = Some s'"
  shows "filter is_interval (trace s') = filter is_interval (trace s)"
proof (cases e)
  case (Push f p)
  with assms show ?thesis
    by (auto simp: push_def run_def Let_def split: if_splits dest!: loop_counts)
next
  case Timeout
  with assms show ?thesis
    by (auto simp: resume_def Let_def split: if_splits option.splits dest!: loop_counts)
next
  case Interval
  with assms show ?thesis by (auto simp: reset_quota_def)
qed

lemma step_monotone:
  assumes "step e s = Some s'" "e \<noteq> Interval"
  shows "requests_made s \<le> requests_made s'"
proof (cases e)
  case (Push f p)
  with assms show ?thesis
    by (auto simp: push_def run_def Let_def split: if_splits dest!: loop_counts)
next
  case Timeout
  with assms show ?thesis
    by (auto simp: resume_def Let_def split: if_splits option.splits dest!: loop_counts)
next
  case Interval
  with assms show ?thesis by simp
qed

lemma exec_intervals:
  assumes "exec es s = Some s'"
  shows "filter is_interval (trace s') = filter is_interval (trace s)"
  using assms
proof (induction es arbitrary: s)
  case Nil
  then show ?case by simp
next
  case (Cons e es)
  from Cons.prems obtain s1 where s1: "step e s = Some s1" "exec es s1 = Some s'"
    by (auto split: option.splits)
  from Cons.IH [OF s1(2)] step_intervals [OF s1(1)] show ?case by simp
qed

text \<open>
  C8. The burst constructor registers one recurring timer, with the unit duration as
  its period and the reset of \<open>requests_made\<close> as its callback, and \<open>requests_made\<close>
  starts at 0. In every state the limiter reaches, this is still the only recurring
  timer ever registered; the firing of the timer (the event \<open>Interval\<close>) is possible
  whatever the queue and the loop are doing, it sets \<open>requests_made\<close> to 0 and changes
  nothing else; and no push and no timeout ever lowers \<open>requests_made\<close>. A reset in the
  middle of a burst restores the allowance: on a \<open>4 per second\<close> limiter the second of
  three pushes is throttled, but with a reset after the first push all three tasks are
  called at once. The cadence in wall-clock time is that of the platform's
  \<open>setInterval\<close> with the registered period.
\<close>

theorem quota_reset:
  assumes "constructor args = Inr b0" and "parse_args args = (n, i)"
    and "interval_ms_of i = Some ms" and "exec es b0 = Some b"
  shows "trace b0 = [SetInterval ms] \<and> requests_made b0 = 0
       \<and> filter is_interval (trace b) = [SetInterval ms]
       \<and> step Interval b = Some (b\<lparr>requests_made := 0\<rparr>)
       \<and> (\<forall>e b'. e \<noteq> Interval \<and> step e b = Some b' \<longrightarrow> requests_made b \<le> requests_made b')
       \<and> map_sum id (map_option trace)
            (session (Spec ''4 per second'')
               [Push (Task 1 False) False, Push (Task 2 False) False, Push (Task 3 False) False]) =
          Inr (Some [SetInterval 1000, Call (Task 1 False), Call (Task 2 False),
                     SetTimeout (Fin 500)])
       \<and> map_sum id (map_option trace)
            (session (Spec ''4 per second'')
               [Push (Task 1 False) False, Interval, Push (Task 2 False) False,
                Push (Task 3 False) False]) =
          Inr (Some [SetInterval 1000, Call (Task 1 False), Call (Task 2 False),
                     Call (Task 3 False), SetTimeout (Fin 500)])"
proof -
  note b0 = constructor_count [OF assms(1-3)]
  have t0: "trace b0 = [SetInterval ms]" "requests_made b0 = 0"
    by (subst b0, simp)+
  have "filter is_interval (trace b) = [SetInterval ms]"
    using exec_intervals [OF assms(4)] t0 by simp
  moreover have "step Interval b = Some (b\<lparr>requests_made := 0\<rparr>)"
    by (simp add: reset_quota_def)
  moreover have "\<forall>e b'. e \<noteq> Interval \<and> step e b = Some b' \<longrightarrow> requests_made b \<le> requests_made b'"
    using step_monotone by blast
  moreover have "map_sum id (map_option trace)
            (session (Spec ''4 per second'')
               [Push (Task 1 False) False, Push (Task 2 False) False, Push (Task 3 False) False]) =
          Inr (Some [SetInterval 1000, Call (Task 1 False), Call (Task 2 False),
                     SetTimeout (Fin 500)])"
    by code_simp
  moreover have "map_sum id (map_option trace)
            (session (Spec ''4 per second'')
               [Push (Task 1 False) False, Interval, Push (Task 2 False) False,
                Push (Task 3 False) False]) =
          Inr (Some [SetInterval 1000, Call (Task 1 False), Call (Task 2 False),
                     Call (Task 3 False), SetTimeout (Fin 500)])"
    by code_simp
  ultimately show ?thesis
    using t0 by blast
qed

theorem quota_reset_witness:
  "step Interval \<lparr>delay_ms = Fin 500, head = None, priority_tail = None, tail = None,
       is_running = False, heap = [\<lparr>fn = Task 1 False, next = None\<rparr>],
       trace = [SetInterval 1000, Call (Task 1 False)], sleeping = 0,
       requests_made = 1, requests_allowed = Fin 4\<rparr> =
   Some \<lparr>delay_ms = Fin 500, head = None, priority_tail = None, tail = None,
       is_running = False, heap = [\<lparr>fn = Task 1 False, next = None\<rparr>],
       trace = [SetInterval 1000, Call (Task 1 False)], sleeping = 0,
       requests_made = 0, requests_allowed = Fin 4\<rparr>
   \<and> (1::nat) \<le> requests_made
        (the (step (Push (Task 2 False) False)
           \<lparr>delay_ms = Fin 500, head = None, priority_tail = None, tail = None,
            is_running = False, heap = [\<lparr>fn = Task 1 False, next = None\<rparr>],
            trace = [SetInterval 1000, Call (Task 1 False)], sleeping = 0,
            requests_made = 1, requests_allowed = Fin 4\<rparr>))"
proof -
  let ?mid = "\<lparr>delay_ms = Fin 500, head = None, priority_tail = None, tail = None,
       is_running = False, heap = [\<lparr>fn = Task 1 False, next = None\<rparr>],
       trace = [SetInterval 1000, Call (Task 1 False)], sleeping = 0,
       requests_made = 1, requests_allowed = Fin 4\<rparr>"
  have e: "exec [Push (Task 1 False) False]
      \<lparr>delay_ms = Fin 500, head = None, priority_tail = None, tail = None,
          is_running = False, heap = [], trace = [SetInterval 1000], sleeping = 0,
          requests_made = 0, requests_allowed = Fin 4\<rparr> = Some ?mid"
    by code_simp
  have u: "interval_ms_of (Some ''per second'') = Some 1000"
    by (simp add: interval_ms_of_def)
  note w = quota_reset [OF constructor_4_per_second parse_4_per_second u e]
  let ?fin = "\<lparr>delay_ms = Fin 500, head = Some 1, priority_tail = None, tail = Some 1,
       is_running = True,
       heap = [\<lparr>fn = Task 1 False, next = None\<rparr>, \<lparr>fn = Task 2 False, next = None\<rparr>],
       trace = [SetInterval 1000, Call (Task 1 False), Call (Task 2 False),
                SetTimeout (Fin 500)],
       sleeping = 1, requests_made = 2, requests_allowed = Fin 4\<rparr>"
  have p: "step (Push (Task 2 False) False) ?mid = Some ?fin"
    by code_simp
  have "Push (Task 2 False) False \<noteq> Interval"
    by simp
  with w p have "requests_made ?mid \<le> requests_made ?fin"
    by blast
  with p w show ?thesis
    by simp
qed

end
